theory Spec2Isabelle
  imports Main "HOL-Library.Sublist"
begin

section \<open>Configuration (HISTORICAL_CONFIG of historical-crawler.js)\<close>

definition CHUNK_SIZE :: nat where
  "CHUNK_SIZE = 1500"

definition CHUNK_OVERLAP :: nat where
  "CHUNK_OVERLAP = 200"

text \<open>An entry of a PROGRESSIVE_TIMING table: \<^verbatim>\<open>{ wait: 300, name: "fast" }\<close>.\<close>

record timing =
  wait :: nat
  name :: string

definition WEBLINK_ATTEMPTS :: "timing list" where
  "WEBLINK_ATTEMPTS =
     [\<lparr>wait = 300, name = ''fast''\<rparr>,
      \<lparr>wait = 600, name = ''medium''\<rparr>,
      \<lparr>wait = 1200, name = ''slow''\<rparr>]"

definition LASERFICHE_ATTEMPTS :: "timing list" where
  "LASERFICHE_ATTEMPTS =
     [\<lparr>wait = 200, name = ''fast''\<rparr>,
      \<lparr>wait = 400, name = ''medium''\<rparr>,
      \<lparr>wait = 800, name = ''slow''\<rparr>]"

section \<open>The chunker: SupabaseUploader.createChunks (lines 297-347)\<close>

text \<open>
  Strings are lists of one-byte characters. \<^verbatim>\<open>\s\<close> of a JavaScript regular expression,
  restricted to such characters: tab, line feed, vertical tab, form feed, carriage
  return, space and no-break space.
\<close>

definition is_ws :: "char \<Rightarrow> bool" where
  "is_ws c = (c = CHR 0x09 \<or> c = CHR 0x0A \<or> c = CHR 0x0B \<or> c = CHR 0x0C \<or> c = CHR 0x0D \<or>
              c = CHR 0x20 \<or> c = CHR 0xA0)"

text \<open>
  \<^verbatim>\<open>s.split(/\s+/)\<close>: the pieces between maximal runs of whitespace. A run at the start
  or at the end of the string leaves an empty piece there; the empty string gives one
  empty piece.
\<close>

function split_ws :: "string \<Rightarrow> string list" where
  "split_ws [] = [[]]"
| "split_ws (c # cs) =
     (if is_ws c then [] # split_ws (dropWhile is_ws cs)
      else (case split_ws cs of
              [] \<Rightarrow> [[c]]
            | w # ws \<Rightarrow> (c # w) # ws))"
  by pat_completeness auto
termination
  by (relation "measure length") (auto simp: le_imp_less_Suc length_dropWhile_le)

text \<open>\<^verbatim>\<open>words.join(' ')\<close>.\<close>

fun join_sp :: "string list \<Rightarrow> string" where
  "join_sp [] = []"
| "join_sp [w] = w"
| "join_sp (w # v # ws) = w @ '' '' @ join_sp (v # ws)"

text \<open>\<^verbatim>\<open>xs.slice(-n)\<close>: the last \<open>n\<close> elements, all of them when there are fewer (and when \<open>n = 0\<close>).\<close>

definition slice_last :: "nat \<Rightarrow> 'a list \<Rightarrow> 'a list" where
  "slice_last n xs = (if n = 0 then xs else drop (length xs - n) xs)"

text \<open>\<^verbatim>\<open>s.trim()\<close>.\<close>

definition trim :: "string \<Rightarrow> string" where
  "trim s = rev (dropWhile is_ws (rev (dropWhile is_ws s)))"

record documentMetadata =
  md_caseNumber :: string
  md_company :: string
  md_witnessName :: string
  md_documentType :: string

text \<open>
  A row for \<^verbatim>\<open>document_chunks\<close>. The random \<^verbatim>\<open>id\<close> (uuidv4) and the \<^verbatim>\<open>created_at\<close> time
  stamp are left out.
\<close>

record chunk =
  chunk_document_id :: nat
  chunk_case_id :: nat
  content :: string
  content_length :: nat
  chunk_index :: nat
  chunk_case_number :: string
  chunk_company :: string
  chunk_witness_name :: string
  chunk_document_type :: string

definition new_chunk :: "nat \<Rightarrow> nat \<Rightarrow> documentMetadata \<Rightarrow> string \<Rightarrow> nat \<Rightarrow> chunk" where
  "new_chunk documentId caseId md currentChunk chunkIndex =
     \<lparr>chunk_document_id = documentId, chunk_case_id = caseId,
      content = currentChunk, content_length = length currentChunk,
      chunk_index = chunkIndex,
      chunk_case_number = md_caseNumber md, chunk_company = md_company md,
      chunk_witness_name = md_witnessName md, chunk_document_type = md_documentType md\<rparr>"

text \<open>One iteration of the loop of lines 303-328. The loop state: \<^verbatim>\<open>currentChunk\<close>, \<^verbatim>\<open>chunkIndex\<close>, \<^verbatim>\<open>chunks\<close>.\<close>

definition chunk_step ::
  "nat \<Rightarrow> nat \<Rightarrow> documentMetadata \<Rightarrow> string \<times> nat \<times> chunk list \<Rightarrow> string \<Rightarrow>
   string \<times> nat \<times> chunk list" where
  "chunk_step documentId caseId md state word =
     (case state of
        (currentChunk, chunkIndex, chunks) \<Rightarrow>
          (let testChunk = currentChunk @ (if currentChunk \<noteq> [] then '' '' else []) @ word
           in if length testChunk > CHUNK_SIZE \<and> length currentChunk > 0 then
                (let overlapWords = slice_last (CHUNK_OVERLAP div 10) (split_ws currentChunk)
                 in (join_sp overlapWords @ '' '' @ word,
                     chunkIndex + 1,
                     chunks @ [new_chunk documentId caseId md currentChunk chunkIndex]))
              else (testChunk, chunkIndex, chunks)))"

definition chunk_loop ::
  "nat \<Rightarrow> nat \<Rightarrow> documentMetadata \<Rightarrow> string list \<Rightarrow> string \<times> nat \<times> chunk list" where
  "chunk_loop documentId caseId md words = foldl (chunk_step documentId caseId md) ([], 0, []) words"

text \<open>Lines 297-347.\<close>

definition createChunks :: "string \<Rightarrow> nat \<Rightarrow> nat \<Rightarrow> documentMetadata \<Rightarrow> chunk list" where
  "createChunks input documentId caseId md =
     (case chunk_loop documentId caseId md (split_ws input) of
        (currentChunk, chunkIndex, chunks) \<Rightarrow>
          if trim currentChunk \<noteq> []
          then chunks @ [new_chunk documentId caseId md currentChunk chunkIndex]
          else chunks)"

section \<open>The relational store as the crawler sees it\<close>

text \<open>
  A store call resolves to \<^verbatim>\<open>{ data, error }\<close>; the error object carries a code and a
  message. A call whose promise rejects is \<open>Rejected\<close>.
\<close>

record pg_error =
  code :: string
  message :: string

datatype 'a query_outcome =
    Resolved "'a option" "pg_error option"
  | Rejected string

record document_row =
  doc_id :: nat
  doc_case_id :: nat
  document_name :: string
  doc_document_type :: string
  document_url :: string
  doc_witness_name :: string
  extraction_status :: string

text \<open>A case as discovery hands it on.\<close>

record caseInfo =
  caseNumber :: string
  company :: string
  utilityType :: string
  caseStatus :: string
  dateFiled :: string
  description :: string
  caseUrl :: string

text \<open>
  The tables the crawler writes, as lists of rows in insertion order, and the supply of
  fresh row ids (the store's \<^verbatim>\<open>uuid_generate_v4()\<close> default). The schema declares two unique
  indexes: \<^verbatim>\<open>unique_case_number ON cases(case_number)\<close> and
  \<^verbatim>\<open>unique_document_per_case ON documents(case_id, document_name)\<close>.
\<close>

record case_row =
  case_id :: nat
  case_number :: string
  case_company :: string
  utility_type :: string
  case_status :: string
  date_filed :: string
  case_description :: string
  case_url :: string

record store =
  cases :: "case_row list"
  documents :: "document_row list"
  document_chunks :: "chunk list"
  next_uuid :: nat

text \<open>
  \<^verbatim>\<open>.single()\<close>: the data is the row when exactly one row matches; otherwise the data is
  null (and the error has code PGRST116).
\<close>

definition single :: "'a list \<Rightarrow> 'a option" where
  "single rows = (case rows of [r] \<Rightarrow> Some r | _ \<Rightarrow> None)"

definition select_case_by_number :: "string \<Rightarrow> store \<Rightarrow> case_row option" where
  "select_case_by_number cn st = single (filter (\<lambda>r. case_number r = cn) (cases st))"

definition select_document_by_url :: "string \<Rightarrow> store \<Rightarrow> document_row option" where
  "select_document_by_url u st = single (filter (\<lambda>d. document_url d = u) (documents st))"

text \<open>The error of an insert that violates a unique index (SQLSTATE 23505).\<close>

definition unique_violation :: "string \<Rightarrow> pg_error" where
  "unique_violation constraint =
     \<lparr>code = ''23505'',
      message = ''duplicate key value violates unique constraint '' @ constraint\<rparr>"

definition insert_case :: "caseInfo \<Rightarrow> store \<Rightarrow> pg_error + case_row \<times> store" where
  "insert_case info st =
     (if \<exists>r\<in>set (cases st). case_number r = caseNumber info
      then Inl (unique_violation ''unique_case_number'')
      else (let row = \<lparr>case_id = next_uuid st, case_number = caseNumber info,
                        case_company = company info, utility_type = utilityType info,
                        case_status = caseStatus info, date_filed = dateFiled info,
                        case_description = description info, case_url = caseUrl info\<rparr>
            in Inr (row, st\<lparr>cases := cases st @ [row], next_uuid := Suc (next_uuid st)\<rparr>)))"

text \<open>The payload of \<^verbatim>\<open>uploadDocument\<close>.\<close>

record documentData =
  dd_caseInfo :: caseInfo
  dd_documentName :: string
  dd_documentType :: string
  dd_documentUrl :: string
  dd_witnessName :: string
  dd_extractedText :: string

text \<open>
  The object \<^verbatim>\<open>uploadDocument\<close> returns. A field the object does not have is \<open>None\<close> (or
  \<open>False\<close> for the flags, which are only tested for truth).
\<close>

record upload_result =
  up_success :: bool
  up_documentId :: "nat option"
  up_caseId :: "nat option"
  up_chunksCreated :: "nat option"
  up_duplicate :: bool
  up_skipped :: bool
  up_error :: "string option"

definition insert_document :: "nat \<Rightarrow> documentData \<Rightarrow> store \<Rightarrow> pg_error + document_row \<times> store" where
  "insert_document caseId dd st =
     (if \<exists>d\<in>set (documents st). doc_case_id d = caseId \<and> document_name d = dd_documentName dd
      then Inl (unique_violation ''unique_document_per_case'')
      else (let row = \<lparr>doc_id = next_uuid st, doc_case_id = caseId,
                        document_name = dd_documentName dd,
                        doc_document_type = dd_documentType dd,
                        document_url = dd_documentUrl dd,
                        doc_witness_name = dd_witnessName dd,
                        extraction_status = ''completed''\<rparr>
            in Inr (row, st\<lparr>documents := documents st @ [row],
                            next_uuid := Suc (next_uuid st)\<rparr>)))"

text \<open>A batch insert into \<^verbatim>\<open>document_chunks\<close>: the error (if any) and the store after it.\<close>

definition insert_chunks :: "chunk list \<Rightarrow> store \<Rightarrow> pg_error option \<times> store" where
  "insert_chunks batch st = (None, st\<lparr>document_chunks := document_chunks st @ batch\<rparr>)"

section \<open>SupabaseUploader: ensureCaseExists and uploadDocument\<close>

text \<open>\<^verbatim>\<open>s.includes(sub)\<close>.\<close>

fun str_includes :: "string \<Rightarrow> string \<Rightarrow> bool" where
  "str_includes [] sub = (sub = [])"
| "str_includes (c # cs) sub = (prefix sub (c # cs) \<or> str_includes cs sub)"

text \<open>Line 265: \<^verbatim>\<open>error.code === '23505' || error.message.includes('duplicate key')\<close>.\<close>

definition is_duplicate_error :: "pg_error \<Rightarrow> bool" where
  "is_duplicate_error e = (code e = ''23505'' \<or> str_includes (message e) ''duplicate key'')"

text \<open>
  \<^verbatim>\<open>ensureCaseExists\<close> (lines 232-287) suspends at each of its three store calls, and
  other workers run while it is suspended. Its control points: called; the first lookup
  sent to the store, and its answer back; the insert sent, and its answer back; the
  second lookup sent (with the insert's error, which the final message quotes), and its
  answer back; returned with an id; thrown.
\<close>

datatype ensure_pc =
    EC_called
  | EC_select_sent
  | EC_select_back "case_row option"
  | EC_insert_sent
  | EC_insert_back "pg_error + case_row"
  | EC_reselect_sent pg_error
  | EC_reselect_back pg_error "case_row option"
  | EC_returned nat
  | EC_thrown string

text \<open>\<^verbatim>\<open>this.caseCache\<close>: case number to case id.\<close>

type_synonym case_cache = "string \<rightharpoonup> nat"

text \<open>
  One step of a call: either the store executes the request in flight, or the code runs
  from the answer to its next store call (or to its return or throw).
\<close>

fun ensure_step :: "caseInfo \<Rightarrow> ensure_pc \<times> case_cache \<times> store \<Rightarrow> ensure_pc \<times> case_cache \<times> store" where
  "ensure_step info (EC_called, cache, st) =
     (case cache (caseNumber info) of
        Some i \<Rightarrow> (EC_returned i, cache, st)
      | None \<Rightarrow> (EC_select_sent, cache, st))"
| "ensure_step info (EC_select_sent, cache, st) =
     (EC_select_back (select_case_by_number (caseNumber info) st), cache, st)"
| "ensure_step info (EC_select_back existingCase, cache, st) =
     (case existingCase of
        Some r \<Rightarrow> (EC_returned (case_id r), cache(caseNumber info \<mapsto> case_id r), st)
      | None \<Rightarrow> (EC_insert_sent, cache, st))"
| "ensure_step info (EC_insert_sent, cache, st) =
     (case insert_case info st of
        Inl error \<Rightarrow> (EC_insert_back (Inl error), cache, st)
      | Inr (newCase, st') \<Rightarrow> (EC_insert_back (Inr newCase), cache, st'))"
| "ensure_step info (EC_insert_back res, cache, st) =
     (case res of
        Inl error \<Rightarrow>
          if is_duplicate_error error then (EC_reselect_sent error, cache, st)
          else (EC_thrown (''Failed to create case '' @ caseNumber info @ '': '' @ message error),
                cache, st)
      | Inr newCase \<Rightarrow>
          (EC_returned (case_id newCase), cache(caseNumber info \<mapsto> case_id newCase), st))"
| "ensure_step info (EC_reselect_sent error, cache, st) =
     (EC_reselect_back error (select_case_by_number (caseNumber info) st), cache, st)"
| "ensure_step info (EC_reselect_back error raceCase, cache, st) =
     (case raceCase of
        Some r \<Rightarrow> (EC_returned (case_id r), cache(caseNumber info \<mapsto> case_id r), st)
      | None \<Rightarrow>
          (EC_thrown (''Failed to create case '' @ caseNumber info @ '': '' @ message error),
           cache, st))"
| "ensure_step info (EC_returned i, cache, st) = (EC_returned i, cache, st)"
| "ensure_step info (EC_thrown err, cache, st) = (EC_thrown err, cache, st)"

text \<open>
  The call run on its own, with no other worker in between (lemma
  \<open>ensureCaseExists_run\<close> below: it is seven steps of \<open>ensure_step\<close>).
\<close>

definition ensureCaseExists ::
  "caseInfo \<Rightarrow> case_cache \<times> store \<Rightarrow> (string + nat) \<times> case_cache \<times> store" where
  "ensureCaseExists info cs =
     (case cs of (cache, st) \<Rightarrow>
        (case cache (caseNumber info) of
           Some i \<Rightarrow> (Inr i, cache, st)
         | None \<Rightarrow>
             (case select_case_by_number (caseNumber info) st of
                Some existingCase \<Rightarrow>
                  (Inr (case_id existingCase),
                   cache(caseNumber info \<mapsto> case_id existingCase), st)
              | None \<Rightarrow>
                  (case insert_case info st of
                     Inl error \<Rightarrow>
                       (if is_duplicate_error error then
                          (case select_case_by_number (caseNumber info) st of
                             Some raceCase \<Rightarrow>
                               (Inr (case_id raceCase),
                                cache(caseNumber info \<mapsto> case_id raceCase), st)
                           | None \<Rightarrow>
                               (Inl (''Failed to create case '' @ caseNumber info @ '': '' @
                                     message error), cache, st))
                        else (Inl (''Failed to create case '' @ caseNumber info @ '': '' @
                                   message error), cache, st))
                   | Inr (newCase, st') \<Rightarrow>
                       (Inr (case_id newCase),
                        cache(caseNumber info \<mapsto> case_id newCase), st')))))"

text \<open>The control point a finished call is at.\<close>

definition pc_of :: "string + nat \<Rightarrow> ensure_pc" where
  "pc_of r = (case r of Inl err \<Rightarrow> EC_thrown err | Inr i \<Rightarrow> EC_returned i)"

text \<open>
  Two calls A and B on the same uploader (one cache) and the same store. A schedule says
  whose step comes next (\<open>True\<close>: A); a step of a finished call changes nothing.
\<close>

fun race_step ::
  "caseInfo \<Rightarrow> caseInfo \<Rightarrow> ensure_pc \<times> ensure_pc \<times> case_cache \<times> store \<Rightarrow> bool \<Rightarrow>
   ensure_pc \<times> ensure_pc \<times> case_cache \<times> store" where
  "race_step infoA infoB (a, b, cache, st) first =
     (if first
      then (case ensure_step infoA (a, cache, st) of (a', cache', st') \<Rightarrow> (a', b, cache', st'))
      else (case ensure_step infoB (b, cache, st) of (b', cache', st') \<Rightarrow> (a, b', cache', st')))"

definition race_run ::
  "caseInfo \<Rightarrow> caseInfo \<Rightarrow> bool list \<Rightarrow> case_cache \<times> store \<Rightarrow>
   ensure_pc \<times> ensure_pc \<times> case_cache \<times> store" where
  "race_run infoA infoB schedule cs =
     (case cs of (cache, st) \<Rightarrow>
        foldl (race_step infoA infoB) (EC_called, EC_called, cache, st) schedule)"

text \<open>
  Lines 409-419: the chunks are inserted in batches of 100; the first batch that fails
  ends the loop (the batches before it stay inserted).
\<close>

function upload_batches :: "chunk list \<Rightarrow> store \<Rightarrow> pg_error option \<times> store" where
  "upload_batches chunks st =
     (if chunks = [] then (None, st)
      else (case insert_chunks (take 100 chunks) st of
              (Some chunkError, st') \<Rightarrow> (Some chunkError, st')
            | (None, st') \<Rightarrow> upload_batches (drop 100 chunks) st'))"
  by pat_completeness auto
termination
  by (relation "measure (\<lambda>(chunks, st). length chunks)") auto

definition upload_failed :: "string \<Rightarrow> upload_result" where
  "upload_failed err =
     \<lparr>up_success = False, up_documentId = None, up_caseId = None, up_chunksCreated = None,
      up_duplicate = False, up_skipped = False, up_error = Some err\<rparr>"

text \<open>
  Lines 354-437. Every exception of the \<^verbatim>\<open>try\<close> block ends in the \<^verbatim>\<open>catch\<close> clause, which
  returns \<^verbatim>\<open>{ success: false, error }\<close>.
\<close>

definition uploadDocument ::
  "documentData \<Rightarrow> case_cache \<times> store \<Rightarrow> upload_result \<times> case_cache \<times> store" where
  "uploadDocument dd cs =
     (case ensureCaseExists (dd_caseInfo dd) cs of
        (Inl err, cache1, st1) \<Rightarrow> (upload_failed err, cache1, st1)
      | (Inr caseId, cache1, st1) \<Rightarrow>
          (case select_document_by_url (dd_documentUrl dd) st1 of
             Some existingDoc \<Rightarrow>
               (\<lparr>up_success = True, up_documentId = Some (doc_id existingDoc),
                 up_caseId = Some (doc_case_id existingDoc), up_chunksCreated = Some 0,
                 up_duplicate = True, up_skipped = True, up_error = None\<rparr>, cache1, st1)
           | None \<Rightarrow>
               (case insert_document caseId dd st1 of
                  Inl docError \<Rightarrow>
                    (upload_failed (''Failed to create document: '' @ message docError),
                     cache1, st1)
                | Inr (doc, st2) \<Rightarrow>
                    (let chunks = createChunks (dd_extractedText dd) (doc_id doc) caseId
                                    \<lparr>md_caseNumber = caseNumber (dd_caseInfo dd),
                                     md_company = company (dd_caseInfo dd),
                                     md_witnessName = dd_witnessName dd,
                                     md_documentType = dd_documentType dd\<rparr>
                     in case upload_batches chunks st2 of
                          (Some chunkError, st3) \<Rightarrow>
                            (upload_failed (''Failed to upload chunks: '' @ message chunkError),
                             cache1, st3)
                        | (None, st3) \<Rightarrow>
                            (\<lparr>up_success = True, up_documentId = Some (doc_id doc),
                              up_caseId = Some caseId,
                              up_chunksCreated = Some (length chunks),
                              up_duplicate = False, up_skipped = False, up_error = None\<rparr>,
                             cache1, st3)))))"

section \<open>HistoricalCrawler.checkDocumentExistsByUrl (lines 2091-2110)\<close>

text \<open>
  The body of the \<^verbatim>\<open>try\<close> block. \<open>Inl\<close> is an exception raised inside it: the awaited
  lookup rejecting is the only one. \<^verbatim>\<open>!!existingDoc\<close> is true when the data is not null.
\<close>

definition checkDocumentExistsByUrl_try :: "document_row query_outcome \<Rightarrow> string + bool" where
  "checkDocumentExistsByUrl_try lookup =
     (case lookup of
        Rejected err \<Rightarrow> Inl err
      | Resolved existingDoc error \<Rightarrow>
          (case error of
             Some e \<Rightarrow> if code e \<noteq> ''PGRST116'' then Inr False else Inr (existingDoc \<noteq> None)
           | None \<Rightarrow> Inr (existingDoc \<noteq> None)))"

text \<open>The whole function: the \<^verbatim>\<open>catch\<close> clause logs and returns false.\<close>

definition checkDocumentExistsByUrl :: "document_row query_outcome \<Rightarrow> string + bool" where
  "checkDocumentExistsByUrl lookup =
     (case checkDocumentExistsByUrl_try lookup of
        Inl err \<Rightarrow> Inr False
      | Inr b \<Rightarrow> Inr b)"

section \<open>SmartRetryQueue (lines 444-582)\<close>

text \<open>
  The attempt information the worker hands to \<^verbatim>\<open>recordFailure\<close>; the ledger adds the
  timestamp.
\<close>

record attempt_info =
  att_error :: string
  att_workerId :: nat
  att_documentName :: string
  att_caseNumber :: string
  att_documentUrl :: string
  att_timestamp :: string

record failure_record =
  attempts :: "attempt_info list"
  lastError :: string
  fr_documentName :: string
  fr_caseNumber :: string

record retry_queue =
  failedDocuments :: "string \<rightharpoonup> failure_record"
  maxRetries :: nat

text \<open>\<^verbatim>\<open>new SmartRetryQueue(maxRetries)\<close>.\<close>

definition new_SmartRetryQueue :: "nat \<Rightarrow> retry_queue" where
  "new_SmartRetryQueue n = \<lparr>failedDocuments = Map.empty, maxRetries = n\<rparr>"

definition recordFailure :: "string \<Rightarrow> attempt_info \<Rightarrow> string \<Rightarrow> retry_queue \<Rightarrow> nat \<times> retry_queue" where
  "recordFailure queueId attemptInfo now_iso rq =
     (let rec0 = (case failedDocuments rq queueId of
                    None \<Rightarrow> \<lparr>attempts = [], lastError = [],
                             fr_documentName = att_documentName attemptInfo,
                             fr_caseNumber = att_caseNumber attemptInfo\<rparr>
                  | Some r \<Rightarrow> r);
          attemptWithTimestamp = attemptInfo\<lparr>att_timestamp := now_iso\<rparr>;
          rec1 = rec0\<lparr>attempts := attempts rec0 @ [attemptWithTimestamp],
                      lastError := att_error attemptInfo\<rparr>
      in (length (attempts rec1), rq\<lparr>failedDocuments := (failedDocuments rq)(queueId \<mapsto> rec1)\<rparr>))"

definition shouldRetry :: "string \<Rightarrow> retry_queue \<Rightarrow> bool" where
  "shouldRetry queueId rq =
     (case failedDocuments rq queueId of
        None \<Rightarrow> True
      | Some r \<Rightarrow> length (attempts r) < maxRetries rq)"

text \<open>
  Both tables have three entries, so the index \<open>min attemptNumber (length - 1)\<close> is always
  in range.
\<close>

definition getNextAttemptSpeed :: "string \<Rightarrow> string \<Rightarrow> retry_queue \<Rightarrow> timing" where
  "getNextAttemptSpeed queueId documentType rq =
     (let attemptNumber = (case failedDocuments rq queueId of
                             None \<Rightarrow> 0
                           | Some r \<Rightarrow> length (attempts r));
          timingConfig = (if documentType = ''weblink_iframe''
                          then WEBLINK_ATTEMPTS else LASERFICHE_ATTEMPTS)
      in timingConfig ! (min attemptNumber (length timingConfig - 1)))"

subsection \<open>The blacklist log\<close>

record blacklist_entry =
  ble_timestamp :: string
  ble_queueId :: string
  ble_documentName :: string
  ble_caseNumber :: string
  ble_attempts :: nat
  ble_errors :: "string list"
  ble_lastError :: string
  ble_documentUrl :: string

text \<open>
  The file \<^verbatim>\<open>./blacklisted-documents.json\<close>: absent, a JSON array of entries, or text
  that \<^verbatim>\<open>JSON.parse\<close> rejects.
\<close>

datatype blacklist_file = Absent | Entries "blacklist_entry list" | Unparseable

text \<open>
  \<^verbatim>\<open>logBlacklistedDocument\<close> obtains the file system with \<^verbatim>\<open>const fs = require('fs')\<close> inside
  its \<^verbatim>\<open>try\<close> block. Whether \<^verbatim>\<open>require\<close> is bound depends on the kind of module the code
  runs in: Node.js binds it in a CommonJS module and leaves it unbound in an ES module,
  where evaluating it raises a ReferenceError. historical-crawler.js is an ES module: it
  starts with static \<^verbatim>\<open>import\<close> declarations and reads \<^verbatim>\<open>import.meta.url\<close> (lines 4-17),
  and it is started as \<^verbatim>\<open>node src/services/crawlers/historical-crawler.js\<close>.
\<close>

datatype module_scope = ES_module | CommonJS_module

fun require_bound :: "module_scope \<Rightarrow> bool" where
  "require_bound ES_module = False"
| "require_bound CommonJS_module = True"

definition crawler_module_scope :: module_scope where
  "crawler_module_scope = ES_module"

text \<open>\<^verbatim>\<open>x || 'Unknown'\<close> on a string: the empty string is falsy.\<close>

definition or_Unknown :: "string \<Rightarrow> string" where
  "or_Unknown s = (if s = [] then ''Unknown'' else s)"

text \<open>
  \<^verbatim>\<open>attempts[attempts.length - 1]?.error || 'Unknown'\<close>: on an empty array the element is
  undefined.
\<close>

definition last_or_Unknown :: "(attempt_info \<Rightarrow> string) \<Rightarrow> attempt_info list \<Rightarrow> string" where
  "last_or_Unknown field atts = (if atts = [] then ''Unknown'' else or_Unknown (field (last atts)))"

text \<open>
  Lines 528-556. Every exception of the \<^verbatim>\<open>try\<close> block (the unbound \<^verbatim>\<open>require\<close>, a file
  that does not parse) is caught and logged, and the file is left as it was.
\<close>

definition logBlacklistedDocument ::
  "module_scope \<Rightarrow> string \<Rightarrow> string \<Rightarrow> string \<Rightarrow> string \<Rightarrow> attempt_info list \<Rightarrow>
   blacklist_file \<Rightarrow> blacklist_file" where
  "logBlacklistedDocument scope now_iso queueId documentName caseNumber' atts file =
     (let blacklistEntry =
            \<lparr>ble_timestamp = now_iso, ble_queueId = queueId,
             ble_documentName = documentName, ble_caseNumber = caseNumber',
             ble_attempts = length atts, ble_errors = map att_error atts,
             ble_lastError = last_or_Unknown att_error atts,
             ble_documentUrl = last_or_Unknown att_documentUrl atts\<rparr>
      in if \<not> require_bound scope then file
         else (case file of
                 Absent \<Rightarrow> Entries [blacklistEntry]
               | Entries blacklist \<Rightarrow> Entries (blacklist @ [blacklistEntry])
               | Unparseable \<Rightarrow> Unparseable))"

text \<open>Lines 563-581: the answer, and the blacklist file after the call.\<close>

definition shouldBlacklist ::
  "module_scope \<Rightarrow> string \<Rightarrow> string \<Rightarrow> retry_queue \<Rightarrow> blacklist_file \<Rightarrow> bool \<times> blacklist_file" where
  "shouldBlacklist scope now_iso queueId rq file =
     (case failedDocuments rq queueId of
        None \<Rightarrow> (False, file)
      | Some r \<Rightarrow>
          if length (attempts r) \<ge> maxRetries rq
          then (True, logBlacklistedDocument scope now_iso queueId
                        (or_Unknown (fr_documentName r)) (or_Unknown (fr_caseNumber r))
                        (attempts r) file)
          else (False, file))"

section \<open>The pipeline file (lines 1989-2052, 2149-2171, 2351-2360)\<close>

text \<open>
  The JSON object of \<^verbatim>\<open>discovered-cases-pipeline.json\<close>. \<open>pd_processedDocuments\<close> is
  \<open>None\<close> when the field is missing or not an array.
\<close>

record pipeline_data =
  pd_timestamp :: string
  pd_totalCases :: nat
  pd_cases :: "caseInfo list"
  pd_processedDocuments :: "string list option"
  pd_status :: string

datatype pipeline_file = NoPipeline | Pipeline pipeline_data | BadPipeline

text \<open>
  \<open>can_write\<close> says whether \<^verbatim>\<open>fs.writeFileSync\<close> succeeds; when it raises, the \<^verbatim>\<open>catch\<close>
  clause logs and the file stays as it was.
\<close>

definition savePipeline :: "bool \<Rightarrow> string \<Rightarrow> caseInfo list \<Rightarrow> pipeline_file \<Rightarrow> pipeline_file" where
  "savePipeline can_write now_iso discoveredCases file =
     (let pipelineData =
            \<lparr>pd_timestamp = now_iso,
             pd_totalCases = length discoveredCases,
             pd_cases = discoveredCases,
             pd_processedDocuments = Some [],
             pd_status = ''discovery_complete''\<rparr>
      in if can_write then Pipeline pipelineData else file)"

definition loadPipelineData :: "pipeline_file \<Rightarrow> pipeline_data option" where
  "loadPipelineData file =
     (case file of
        NoPipeline \<Rightarrow> None
      | Pipeline pipelineData \<Rightarrow> Some pipelineData
      | BadPipeline \<Rightarrow> None)"


definition updatePipelineAfterDocument ::
  "bool \<Rightarrow> string \<Rightarrow> string \<Rightarrow> pipeline_file \<Rightarrow> pipeline_file" where
  "updatePipelineAfterDocument can_write documentName caseNumber' file =
     (case loadPipelineData file of
        None \<Rightarrow> file
      | Some pipelineData \<Rightarrow>
          (let processed = (case pd_processedDocuments pipelineData of
                              None \<Rightarrow> []
                            | Some ks \<Rightarrow> ks);
               docKey = caseNumber' @ '':'' @ documentName
           in if docKey \<notin> set processed
              then (if can_write
                    then Pipeline (pipelineData\<lparr>pd_processedDocuments := Some (processed @ [docKey])\<rparr>)
                    else file)
              else file))"


section \<open>The worker: HistoricalCrawler.documentWorker (lines 1743-1962)\<close>

text \<open>A queued document: a link of the case page with its case and its queue id.\<close>

record document =
  d_text :: string
  d_href :: string
  d_section :: string
  d_witnessName :: string
  d_documentType :: string
  d_queueId :: string
  d_caseInfo :: caseInfo

text \<open>
  What the worker keeps of a processed document: the object \<^verbatim>\<open>extractDocumentText\<close>
  returns on success, or the one the worker builds for a skipped duplicate. A field the
  object does not have is \<open>None\<close>, \<open>False\<close> or 0 (all falsy, as \<^verbatim>\<open>undefined\<close> is).
\<close>

record doc_result =
  r_documentName :: string
  r_pages :: nat
  r_chunksCreated :: nat
  r_success :: bool
  r_skipped :: bool
  r_duplicate :: bool
  r_caseNumber :: "string option"

record progress_tracker =
  completed :: nat
  errors :: nat
  skippedDuplicates :: nat
  actualNewDocuments :: nat

definition recordSuccess :: "progress_tracker \<Rightarrow> progress_tracker" where
  "recordSuccess t = t\<lparr>completed := completed t + 1\<rparr>"

definition recordSkipped :: "progress_tracker \<Rightarrow> progress_tracker" where
  "recordSkipped t = t\<lparr>skippedDuplicates := skippedDuplicates t + 1, completed := completed t + 1\<rparr>"

definition recordNewDocument :: "progress_tracker \<Rightarrow> progress_tracker" where
  "recordNewDocument t = t\<lparr>actualNewDocuments := actualNewDocuments t + 1\<rparr>"

definition recordError :: "progress_tracker \<Rightarrow> progress_tracker" where
  "recordError t = t\<lparr>errors := errors t + 1\<rparr>"

text \<open>The lines the worker prints about a document, by the branch that prints them.\<close>

datatype worker_log =
    Log_skipped_pipeline
  | Log_skipped_database
  | Log_completed_skipped
  | Log_completed
  | Log_requeued nat
  | Log_blacklisted
  | Log_failed

text \<open>
  What a worker reads and writes besides its browser page: the shared queue (null in the
  case-based pattern), the results, the retry ledger, the progress tracker, the pipeline
  file and the blacklist log.
\<close>

record worker_state =
  ws_sharedQueue :: "document list option"
  ws_processedDocuments :: "doc_result list"
  ws_retryQueue :: retry_queue
  ws_progressTracker :: "progress_tracker option"
  ws_pipelineFile :: pipeline_file
  ws_blacklistFile :: blacklist_file
  ws_documentsProcessed :: nat
  ws_log :: "worker_log list"

text \<open>
  What the world answers while one document is processed: the store's answer to the URL
  lookup, what \<^verbatim>\<open>extractDocumentText\<close> returns (null when it extracted or uploaded
  nothing), the clock, and whether the pipeline file can be written.
\<close>

record doc_env =
  env_lookup :: "document_row query_outcome"
  env_extraction :: "doc_result option"
  env_now :: string
  env_can_write :: bool
  env_scope :: module_scope

definition skipped_result :: "document \<Rightarrow> doc_result" where
  "skipped_result doc =
     \<lparr>r_documentName = d_text doc, r_pages = 0, r_chunksCreated = 0, r_success = True,
      r_skipped = True, r_duplicate = True,
      r_caseNumber = Some (caseNumber (d_caseInfo doc))\<rparr>"

text \<open>
  Lines 1847-1849: \<^verbatim>\<open>pipelineData?.processedDocuments?.includes(docKey)\<close>, with the key
  \<^verbatim>\<open>caseNumber:documentName\<close>.
\<close>

definition isInPipeline :: "pipeline_file \<Rightarrow> document \<Rightarrow> bool" where
  "isInPipeline file doc =
     (let pipelineData = loadPipelineData file;
          docKey = caseNumber (d_caseInfo doc) @ '':'' @ d_text doc
      in case pipelineData of
           None \<Rightarrow> False
         | Some pd \<Rightarrow> (case pd_processedDocuments pd of
                         None \<Rightarrow> False
                       | Some ks \<Rightarrow> docKey \<in> set ks))"

text \<open>
  Lines 1842-1879, the optional duplicate check: the result when the document is skipped
  (\<open>None\<close> when it has to be extracted) and the line logged.
\<close>

definition duplicate_check ::
  "bool \<Rightarrow> pipeline_file \<Rightarrow> document_row query_outcome \<Rightarrow> document \<Rightarrow>
   doc_result option \<times> worker_log list" where
  "duplicate_check checkDuplicates file lookup doc =
     (if checkDuplicates then
        (if isInPipeline file doc then (Some (skipped_result doc), [Log_skipped_pipeline])
         else (case checkDocumentExistsByUrl lookup of
                 Inr True \<Rightarrow> (Some (skipped_result doc), [Log_skipped_database])
               | _ \<Rightarrow> (None, [])))
      else (None, []))"

text \<open>
  Lines 1881-1897: the document is extracted only when the duplicate check left no
  result. In the shared-queue pattern the case number is written into the result.
\<close>

definition extract_if_needed ::
  "bool \<Rightarrow> doc_env \<Rightarrow> document \<Rightarrow> doc_result option \<Rightarrow> doc_result option" where
  "extract_if_needed useCaseQueue env doc result =
     (case result of
        Some r \<Rightarrow> Some r
      | None \<Rightarrow>
          (case env_extraction env of
             None \<Rightarrow> None
           | Some r \<Rightarrow>
               if \<not> useCaseQueue
               then Some (r\<lparr>r_caseNumber := Some (caseNumber (d_caseInfo doc))\<rparr>)
               else Some r))"

definition track_result :: "doc_result \<Rightarrow> progress_tracker \<Rightarrow> progress_tracker" where
  "track_result r t =
     (if r_skipped r \<or> r_duplicate r then recordSkipped t
      else if r_success r \<and> \<not> r_duplicate r then recordNewDocument (recordSuccess t)
      else recordSuccess t)"

text \<open>
  Lines 1899-1946, "Handle result". A result is recorded; for a missing result the retry
  logic runs under the guard \<^verbatim>\<open>else if (!useCaseQueue && sharedQueue)\<close>, and nothing at
  all happens otherwise. \<^verbatim>\<open>shouldBlacklist\<close> writes the blacklist log, so the file is
  threaded through each call in the order the source makes them:
  \<^verbatim>\<open>shouldRetry(id) && !shouldBlacklist(id)\<close> calls the second only when the first holds.
\<close>

definition handle_result ::
  "bool \<Rightarrow> doc_env \<Rightarrow> nat \<Rightarrow> document \<Rightarrow> doc_result option \<Rightarrow> worker_state \<Rightarrow> worker_state" where
  "handle_result useCaseQueue env workerId doc result s =
     (case result of
        Some r \<Rightarrow>
          (let s1 = s\<lparr>ws_processedDocuments := ws_processedDocuments s @ [r],
                      ws_documentsProcessed := ws_documentsProcessed s + 1\<rparr>;
               s2 = (if r_skipped r
                     then s1\<lparr>ws_log := ws_log s1 @ [Log_completed_skipped]\<rparr>
                     else s1\<lparr>ws_log := ws_log s1 @ [Log_completed],
                             ws_pipelineFile :=
                               updatePipelineAfterDocument (env_can_write env) (d_text doc)
                                 (caseNumber (d_caseInfo doc)) (ws_pipelineFile s1)\<rparr>)
           in s2\<lparr>ws_progressTracker := map_option (track_result r) (ws_progressTracker s2)\<rparr>)
      | None \<Rightarrow>
          (case ws_sharedQueue s of
             Some sharedQueue \<Rightarrow>
               if \<not> useCaseQueue then
                 (let (attemptCount, rq1) =
                        recordFailure (d_queueId doc)
                          \<lparr>att_error = ''No text extracted'', att_workerId = workerId,
                           att_documentName = d_text doc,
                           att_caseNumber = caseNumber (d_caseInfo doc),
                           att_documentUrl = d_href doc, att_timestamp = []\<rparr>
                          (env_now env) (ws_retryQueue s);
                      s1 = s\<lparr>ws_retryQueue := rq1\<rparr>;
                      retry = shouldRetry (d_queueId doc) rq1;
                      (bl1, file1) = (if retry
                                      then shouldBlacklist (env_scope env) (env_now env)
                                             (d_queueId doc) rq1 (ws_blacklistFile s1)
                                      else (False, ws_blacklistFile s1))
                  in if retry \<and> \<not> bl1
                     then s1\<lparr>ws_sharedQueue := Some (sharedQueue @ [doc]),
                             ws_blacklistFile := file1,
                             ws_log := ws_log s1 @ [Log_requeued (attemptCount + 1)]\<rparr>
                     else (let (bl2, file2) = shouldBlacklist (env_scope env) (env_now env)
                                                (d_queueId doc) rq1 file1
                           in s1\<lparr>ws_blacklistFile := file2,
                                  ws_log := ws_log s1 @ [if bl2 then Log_blacklisted else Log_failed],
                                  ws_progressTracker :=
                                    map_option recordError (ws_progressTracker s1)\<rparr>))
               else s
           | None \<Rightarrow> s))"

text \<open>Lines 1839-1950: what the worker does with a document it has dequeued.\<close>

definition process_document ::
  "bool \<Rightarrow> bool \<Rightarrow> doc_env \<Rightarrow> nat \<Rightarrow> document \<Rightarrow> worker_state \<Rightarrow> worker_state" where
  "process_document useCaseQueue checkDuplicates env workerId doc s =
     (case duplicate_check checkDuplicates (ws_pipelineFile s) (env_lookup env) doc of
        (result0, logged) \<Rightarrow>
          handle_result useCaseQueue env workerId doc
            (extract_if_needed useCaseQueue env doc result0)
            (s\<lparr>ws_log := ws_log s @ logged\<rparr>))"

section \<open>The case queue: HistoricalCrawler.getNextCase (lines 2771-2821)\<close>

record case_bundle =
  cb_caseInfo :: caseInfo
  cb_documents :: "document list"

text \<open>
  \<^verbatim>\<open>getNextCase\<close> suspends at every \<^verbatim>\<open>await\<close>, and discovery and the other workers run in
  between. A tick is what the function sees when it resumes: two readings of
  \<^verbatim>\<open>Date.now()\<close> in milliseconds (lines 2783 and 2785), the discovery-complete flag, the
  case queue and the lock. The list of ticks is the world's behaviour during the call.
\<close>

record tick =
  now_ms :: int
  now_again_ms :: int
  discoveryComplete :: bool
  caseQueue :: "case_bundle list"
  lockInUse :: bool

definition baseWaitTime :: int where
  "baseWaitTime = 30000"

definition extendedWaitTime :: int where
  "extendedWaitTime = 120000"

text \<open>
  Lines 2796-2798, \<^verbatim>\<open>while (this.queueLock.inUse) await sleep(100)\<close>: the first tick
  that finds the lock free, and the ticks after it.
\<close>

fun wait_for_lock :: "tick list \<Rightarrow> (tick \<times> tick list) option" where
  "wait_for_lock [] = None"
| "wait_for_lock (t # ts) = (if lockInUse t then wait_for_lock ts else Some (t, ts))"

text \<open>
  The value the call resolves to: a case bundle (with the queue that is left), or null.
\<close>

datatype next_case = Next_case case_bundle "case_bundle list" | No_more_work

lemma wait_for_lock_shorter:
  "wait_for_lock ts = Some (u, us) \<Longrightarrow> length us < length ts"
  by (induction ts) (auto split: if_splits)

text \<open>
  The loop. The result is \<open>None\<close> when the ticks run out while the call is still waiting.
\<close>

function getNextCase_loop :: "int \<Rightarrow> tick list \<Rightarrow> next_case option" where
  "getNextCase_loop startTime [] = None"
| "getNextCase_loop startTime (t # ts) =
     (let maxWaitTime = (if discoveryComplete t then baseWaitTime else extendedWaitTime)
      in if now_ms t - startTime > maxWaitTime then
           (if \<not> discoveryComplete t \<and> now_again_ms t - startTime < extendedWaitTime
            then getNextCase_loop startTime ts
            else Some No_more_work)
         else (case wait_for_lock (t # ts) of
                 None \<Rightarrow> None
               | Some (u, us) \<Rightarrow>
                   if length (caseQueue u) > 0
                   then Some (Next_case (hd (caseQueue u)) (tl (caseQueue u)))
                   else if discoveryComplete u then Some No_more_work
                   else getNextCase_loop startTime us))"
  by pat_completeness auto
termination
  by (relation "measure (\<lambda>(s, ts). length ts)")
     (auto simp del: wait_for_lock.simps dest: wait_for_lock_shorter)

definition getNextCase :: "int \<Rightarrow> tick list \<Rightarrow> next_case option" where
  "getNextCase startTime ticks = getNextCase_loop startTime ticks"

section \<open>The run: crawlHistoricalData and performFinalVerification\<close>









section \<open>Auxiliary notions and sample data for the statements\<close>

text \<open>The attempts the ledger holds for a queue id (none when it has no record).\<close>

definition attempts_of :: "retry_queue \<Rightarrow> string \<Rightarrow> attempt_info list" where
  "attempts_of rq q = (case failedDocuments rq q of None \<Rightarrow> [] | Some r \<Rightarrow> attempts r)"

text \<open>
  The two situations in which an iteration of \<^verbatim>\<open>getNextCase\<close> can answer null: the elapsed
  time is above the limit in force, or the lock is free, the queue empty and discovery
  complete.
\<close>

definition gives_up :: "int \<Rightarrow> tick \<Rightarrow> bool" where
  "gives_up startTime t =
     (now_ms t - startTime > (if discoveryComplete t then baseWaitTime else extendedWaitTime) \<or>
      (\<not> lockInUse t \<and> caseQueue t = [] \<and> discoveryComplete t))"

definition ex_case :: caseInfo where
  "ex_case =
     \<lparr>caseNumber = ''IPC-E-24-01'', company = ''Idaho Power'', utilityType = ''electric'',
      caseStatus = ''open'', dateFiled = ''2024-01-15'', description = ''Rate case'',
      caseUrl = ''https://puc.idaho.gov/case/Details/1''\<rparr>"

definition ex_doc :: document where
  "ex_doc =
     \<lparr>d_text = ''DIRECT SMITH.PDF'', d_href = ''https://lf-puc.idaho.gov/doc/1'',
      d_section = ''Company'', d_witnessName = ''SMITH'',
      d_documentType = ''Company_Direct_Testimony'', d_queueId = ''q1'',
      d_caseInfo = ex_case\<rparr>"

text \<open>
  A world in which the URL lookup finds no row and the extraction returns null (no text
  was extracted).
\<close>

definition ex_env :: doc_env where
  "ex_env =
     \<lparr>env_lookup = Resolved None (Some \<lparr>code = ''PGRST116'', message = ''no rows''\<rparr>),
      env_extraction = None, env_now = ''2024-06-01T00:00:00.000Z'',
      env_can_write = True, env_scope = crawler_module_scope\<rparr>"

text \<open>
  A world in which the URL lookup fails with a connection error and the extraction
  succeeds.
\<close>

definition ex_lookup_error :: pg_error where
  "ex_lookup_error = \<lparr>code = ''08006'', message = ''connection failure''\<rparr>"

definition ex_extracted :: doc_result where
  "ex_extracted =
     \<lparr>r_documentName = ''DIRECT SMITH.PDF'', r_pages = 12, r_chunksCreated = 30,
      r_success = True, r_skipped = False, r_duplicate = False, r_caseNumber = None\<rparr>"

definition ex_env_lookup_fails :: doc_env where
  "ex_env_lookup_fails =
     ex_env\<lparr>env_lookup := Resolved None (Some ex_lookup_error),
             env_extraction := Some ex_extracted\<rparr>"

text \<open>
  The state of a worker started by \<^verbatim>\<open>startParallelProcessing\<close> (case-based pattern, no
  shared queue) and of one started by \<^verbatim>\<open>processMultiYearQueue\<close> (shared queue).
\<close>

definition ex_case_state :: worker_state where
  "ex_case_state =
     \<lparr>ws_sharedQueue = None, ws_processedDocuments = [],
      ws_retryQueue = new_SmartRetryQueue 3,
      ws_progressTracker = Some \<lparr>completed = 0, errors = 0, skippedDuplicates = 0,
                                 actualNewDocuments = 0\<rparr>,
      ws_pipelineFile = NoPipeline, ws_blacklistFile = Absent,
      ws_documentsProcessed = 0, ws_log = []\<rparr>"

definition ex_shared_state :: worker_state where
  "ex_shared_state = ex_case_state\<lparr>ws_sharedQueue := Some []\<rparr>"



definition ex_tick :: tick where
  "ex_tick = \<lparr>now_ms = 0, now_again_ms = 0, discoveryComplete = True, caseQueue = [],
              lockInUse = False\<rparr>"

definition ex_bundle :: case_bundle where
  "ex_bundle = \<lparr>cb_caseInfo = ex_case, cb_documents = [ex_doc]\<rparr>"

text \<open>Notions for the statements about the chunker.\<close>

definition ws_free :: "string \<Rightarrow> bool" where
  "ws_free w = (\<forall>c\<in>set w. \<not> is_ws c)"

definition word_ok :: "string \<Rightarrow> bool" where
  "word_ok w = (w \<noteq> [] \<and> ws_free w)"

text \<open>
  The text that a split carries over from the chunk \<open>p\<close> it emits: the last
  \<open>CHUNK_OVERLAP div 10\<close> words of \<open>p\<close>, joined by single spaces.
\<close>

definition overlap_text :: "string \<Rightarrow> string" where
  "overlap_text p = join_sp (slice_last (CHUNK_OVERLAP div 10) (split_ws p))"

text \<open>
  How a buffer \<open>c\<close> is related to the chunk \<open>p\<close> emitted before it: it starts with the
  seed of the split (overlap text, a space and a word of \<open>W\<close>), and it is longer than
  \<open>CHUNK_SIZE\<close> only when it is that seed.
\<close>

definition link :: "string set \<Rightarrow> string \<Rightarrow> string \<Rightarrow> bool" where
  "link W p c =
     (\<exists>w\<in>W. prefix (overlap_text p @ '' '' @ w) c \<and>
            (length c \<le> CHUNK_SIZE \<or> c = overlap_text p @ '' '' @ w))"

text \<open>A buffer is well formed when it is a non-empty list of words joined by single spaces.\<close>

definition wfb :: "string \<Rightarrow> bool" where
  "wfb s = (\<exists>vs. vs \<noteq> [] \<and> list_all word_ok vs \<and> s = join_sp vs)"

text \<open>
  Invariants of the loop of \<^verbatim>\<open>createChunks\<close>, on its state (buffer, next index, chunks
  so far): the indices count the chunks; some text has been seen; consecutive chunks, and
  the last chunk and the buffer, are linked.
\<close>

definition idx_inv :: "string \<times> nat \<times> chunk list \<Rightarrow> bool" where
  "idx_inv st = (case st of (cur, idx, chunks) \<Rightarrow>
      idx = length chunks \<and> map chunk_index chunks = [0..<length chunks])"

definition has_text :: "string \<times> nat \<times> chunk list \<Rightarrow> bool" where
  "has_text st = (case st of (cur, idx, chunks) \<Rightarrow> chunks \<noteq> [] \<or> (\<exists>x\<in>set cur. \<not> is_ws x))"

definition link_inv :: "string set \<Rightarrow> string \<times> nat \<times> chunk list \<Rightarrow> bool" where
  "link_inv W st = (case st of (cur, idx, chunks) \<Rightarrow>
      (chunks = [] \<longrightarrow> length cur \<le> CHUNK_SIZE \<or> cur \<in> W) \<and>
      (chunks \<noteq> [] \<longrightarrow> link W (content (last chunks)) cur \<and>
         (length (content (hd chunks)) \<le> CHUNK_SIZE \<or> content (hd chunks) \<in> W)) \<and>
      successively (link W) (map content chunks))"

definition ex_md :: documentMetadata where
  "ex_md = \<lparr>md_caseNumber = ''IPC-E-24-01'', md_company = ''Idaho Power'',
            md_witnessName = ''SMITH'', md_documentType = ''Company_Direct_Testimony''\<rparr>"

definition ex_two_words :: string where
  "ex_two_words = replicate 750 CHR ''a'' @ '' '' @ replicate 750 CHR ''b''"

text \<open>
  A text of 26 words of 59 characters: five words of a's, twenty words of b's and one word
  of c's. The first 25 words fill 1499 characters.
\<close>

definition ex_wa :: string where
  "ex_wa = replicate 59 CHR ''a''"

definition ex_wb :: string where
  "ex_wb = replicate 59 CHR ''b''"

definition ex_wc :: string where
  "ex_wc = replicate 59 CHR ''c''"

definition ex_first_words :: "string list" where
  "ex_first_words = replicate 5 ex_wa @ replicate 20 ex_wb"

definition ex_long_text :: string where
  "ex_long_text = join_sp (ex_first_words @ [ex_wc])"

text \<open>Notions for the statements about the uploader.\<close>

text \<open>
  The store holds a row with this case number and id; the unique index on the case number
  holds; a cached id belongs to a row of the store.
\<close>

definition has_case :: "string \<Rightarrow> nat \<Rightarrow> store \<Rightarrow> bool" where
  "has_case cn i st = (\<exists>r\<in>set (cases st). case_number r = cn \<and> case_id r = i)"

definition cases_unique :: "store \<Rightarrow> bool" where
  "cases_unique st = distinct (map case_number (cases st))"

definition cache_ok :: "string \<Rightarrow> case_cache \<Rightarrow> store \<Rightarrow> bool" where
  "cache_ok cn cache st = (case cache cn of None \<Rightarrow> True | Some i \<Rightarrow> has_case cn i st)"

text \<open>
  What a suspended call knows about the store at each of its points: a row it has been
  handed is in the store, a uniqueness violation means that a row with the case number
  exists, and the call never reaches the point where it throws. \<open>rank\<close> counts the steps
  a call still has to take.
\<close>

fun pc_ok :: "string \<Rightarrow> store \<Rightarrow> ensure_pc \<Rightarrow> bool" where
  "pc_ok cn st (EC_select_back (Some r)) = (r \<in> set (cases st) \<and> case_number r = cn)"
| "pc_ok cn st (EC_insert_back (Inr r)) = (r \<in> set (cases st) \<and> case_number r = cn)"
| "pc_ok cn st (EC_insert_back (Inl e)) =
     (is_duplicate_error e \<and> (\<exists>r\<in>set (cases st). case_number r = cn))"
| "pc_ok cn st (EC_reselect_sent e) = (\<exists>r\<in>set (cases st). case_number r = cn)"
| "pc_ok cn st (EC_reselect_back e None) = False"
| "pc_ok cn st (EC_reselect_back e (Some r)) = (r \<in> set (cases st) \<and> case_number r = cn)"
| "pc_ok cn st (EC_returned i) = has_case cn i st"
| "pc_ok cn st (EC_thrown err) = False"
| "pc_ok cn st pc = True"

fun rank :: "ensure_pc \<Rightarrow> nat" where
  "rank EC_called = 7"
| "rank EC_select_sent = 6"
| "rank (EC_select_back r) = 5"
| "rank EC_insert_sent = 4"
| "rank (EC_insert_back r) = 3"
| "rank (EC_reselect_sent e) = 2"
| "rank (EC_reselect_back e r) = 1"
| "rank (EC_returned i) = 0"
| "rank (EC_thrown err) = 0"

definition race_inv :: "string \<Rightarrow> ensure_pc \<times> ensure_pc \<times> case_cache \<times> store \<Rightarrow> bool" where
  "race_inv cn s = (case s of (a, b, cache, st) \<Rightarrow>
      cases_unique st \<and> cache_ok cn cache st \<and> pc_ok cn st a \<and> pc_ok cn st b)"

text \<open>The document rows with a given URL (what the lookup of line 359-363 matches).\<close>

definition url_rows :: "string \<Rightarrow> store \<Rightarrow> document_row list" where
  "url_rows u st = filter (\<lambda>d. document_url d = u) (documents st)"

text \<open>
  The case that the payload resolves to (the id \<^verbatim>\<open>ensureCaseExists\<close> returns) holds no
  document with the payload's name: the unique index on (case_id, document_name) lets the
  insert of line 377 through.
\<close>

definition name_free :: "documentData \<Rightarrow> case_cache \<times> store \<Rightarrow> bool" where
  "name_free dd cs =
     (case ensureCaseExists (dd_caseInfo dd) cs of
        (Inl err, cache1, st1) \<Rightarrow> False
      | (Inr caseId, cache1, st1) \<Rightarrow>
          \<not> (\<exists>d\<in>set (documents st1). doc_case_id d = caseId \<and>
                                      document_name d = dd_documentName dd))"

definition empty_store :: store where
  "empty_store = \<lparr>cases = [], documents = [], document_chunks = [], next_uuid = 1\<rparr>"

text \<open>
  Two calls taking turns, seven steps each (\<open>True\<close> lets the first call take a step,
  \<open>False\<close> the second).
\<close>

definition ex_schedule :: "bool list" where
  "ex_schedule = [True, False, True, False, True, False, True, False, True, False, True, False,
                  True, False]"

definition ex_case_row :: case_row where
  "ex_case_row =
     \<lparr>case_id = 1, case_number = ''IPC-E-24-01'', case_company = ''Idaho Power'',
      utility_type = ''electric'', case_status = ''open'', date_filed = ''2024-01-15'',
      case_description = ''Rate case'', case_url = ''https://puc.idaho.gov/case/Details/1''\<rparr>"

definition ex_document_row :: document_row where
  "ex_document_row =
     \<lparr>doc_id = 2, doc_case_id = 1, document_name = ''DIRECT SMITH.PDF'',
      doc_document_type = ''Company_Direct_Testimony'',
      document_url = ''https://lf-puc.idaho.gov/doc/1'', doc_witness_name = ''SMITH'',
      extraction_status = ''completed''\<rparr>"

definition ex_store :: store where
  "ex_store = empty_store\<lparr>cases := [ex_case_row], documents := [ex_document_row], next_uuid := 3\<rparr>"

text \<open>
  A store in which two rows of the case share a URL (under two names). The schema has no
  unique index on the URL, so the store admits it.
\<close>

definition ex_twin_store :: store where
  "ex_twin_store =
     empty_store\<lparr>cases := [ex_case_row],
                 documents := [ex_document_row,
                               ex_document_row\<lparr>doc_id := 3, document_name := ''SMITH DIRECT.PDF''\<rparr>],
                 next_uuid := 4\<rparr>"

definition ex_upload :: documentData where
  "ex_upload =
     \<lparr>dd_caseInfo = ex_case, dd_documentName = ''DIRECT SMITH.PDF'',
      dd_documentType = ''Company_Direct_Testimony'',
      dd_documentUrl = ''https://lf-puc.idaho.gov/doc/1'', dd_witnessName = ''SMITH'',
      dd_extractedText = ''rate case''\<rparr>"

text \<open>
  The payload of \<open>ex_upload\<close> at a new URL: same case and same name as the row of
  \<open>ex_store\<close>. And the payload of \<open>ex_upload\<close> under a third name.
\<close>

definition ex_clash_upload :: documentData where
  "ex_clash_upload = ex_upload\<lparr>dd_documentUrl := ''https://lf-puc.idaho.gov/doc/2''\<rparr>"

definition ex_third_upload :: documentData where
  "ex_third_upload = ex_upload\<lparr>dd_documentName := ''TESTIMONY.PDF''\<rparr>"

section \<open>Properties\<close>

subsection \<open>checkDocumentExistsByUrl\<close>

lemma checkDocumentExistsByUrl_returns:
  "\<exists>b. checkDocumentExistsByUrl lookup = Inr b"
  by (auto simp: checkDocumentExistsByUrl_def checkDocumentExistsByUrl_try_def
      split: query_outcome.splits option.splits)

text \<open>
  Claim C10. \<^verbatim>\<open>checkDocumentExistsByUrl\<close> never raises: for every outcome of the lookup it
  returns a boolean. It returns false when the lookup's promise rejects and when the
  lookup resolves with an error whose code is not PGRST116. The worker then treats the
  document as absent: unless its key is in the pipeline history, the duplicate check
  leaves no result, and the worker goes on to extract the document and to handle what
  the extraction returns.
\<close>

theorem checkDocumentExistsByUrl_failed_lookup_means_absent:
  "(\<exists>b. checkDocumentExistsByUrl lookup = Inr b) \<and>
   checkDocumentExistsByUrl (Rejected err) = Inr False \<and>
   (code e \<noteq> ''PGRST116'' \<longrightarrow>
      checkDocumentExistsByUrl (Resolved d (Some e)) = Inr False) \<and>
   (code e \<noteq> ''PGRST116'' \<and> env_lookup env = Resolved d (Some e) \<and>
    \<not> isInPipeline (ws_pipelineFile s) doc \<longrightarrow>
      duplicate_check ck (ws_pipelineFile s) (env_lookup env) doc = (None, []) \<and>
      process_document u ck env w doc s =
        handle_result u env w doc (extract_if_needed u env doc None) s)"
  by (auto simp: checkDocumentExistsByUrl_def checkDocumentExistsByUrl_try_def
      duplicate_check_def process_document_def split: query_outcome.splits option.splits)

text \<open>
  Witness for C10: a lookup that fails with a connection error (code 08006), for a
  document whose key is not in the pipeline history and whose text can be extracted.
  The document is not skipped: the worker records the result of the extraction.
\<close>

theorem checkDocumentExistsByUrl_failed_lookup_witness:
  "code ex_lookup_error \<noteq> ''PGRST116'' \<and>
   env_lookup ex_env_lookup_fails = Resolved None (Some ex_lookup_error) \<and>
   \<not> isInPipeline (ws_pipelineFile ex_case_state) ex_doc \<and>
   checkDocumentExistsByUrl (Resolved None (Some ex_lookup_error)) = Inr False \<and>
   ws_processedDocuments (process_document True True ex_env_lookup_fails 1 ex_doc ex_case_state)
     = [ex_extracted] \<and>
   ws_log (process_document True True ex_env_lookup_fails 1 ex_doc ex_case_state)
     = [Log_completed]"
  using checkDocumentExistsByUrl_failed_lookup_means_absent
          [of "Resolved None None" "''x''" ex_lookup_error None ex_env_lookup_fails
              ex_case_state ex_doc True True 1]
  by (simp add: isInPipeline_def loadPipelineData_def ex_lookup_error_def
      ex_env_lookup_fails_def ex_case_state_def ex_env_def extract_if_needed_def
      handle_result_def ex_extracted_def updatePipelineAfterDocument_def Let_def)

subsection \<open>SmartRetryQueue\<close>

lemma attempts_of_recordFailure:
  "attempts_of (snd (recordFailure q a t rq)) q = attempts_of rq q @ [a\<lparr>att_timestamp := t\<rparr>]"
  by (simp add: attempts_of_def recordFailure_def Let_def split: option.splits)

text \<open>
  The timing of the first three attempts of a document, for either viewer kind: the
  waits do not decrease.
\<close>

lemma getNextAttemptSpeed_escalates:
  "wait (getNextAttemptSpeed q ty (new_SmartRetryQueue 3))
     \<le> wait (getNextAttemptSpeed q ty (snd (recordFailure q a1 t1 (new_SmartRetryQueue 3)))) \<and>
   wait (getNextAttemptSpeed q ty (snd (recordFailure q a1 t1 (new_SmartRetryQueue 3))))
     \<le> wait (getNextAttemptSpeed q ty
               (snd (recordFailure q a2 t2 (snd (recordFailure q a1 t1 (new_SmartRetryQueue 3))))))"
  by (simp add: getNextAttemptSpeed_def recordFailure_def new_SmartRetryQueue_def Let_def
      WEBLINK_ATTEMPTS_def LASERFICHE_ATTEMPTS_def)

text \<open>
  In a CommonJS module, where \<^verbatim>\<open>require\<close> is bound, the call after the third failure
  appends exactly one entry to an existing log.
\<close>

lemma shouldBlacklist_appends_one_entry_in_CommonJS:
  "\<exists>entry. shouldBlacklist CommonJS_module now q
     (snd (recordFailure q a3 t3 (snd (recordFailure q a2 t2
        (snd (recordFailure q a1 t1 (new_SmartRetryQueue 3))))))) (Entries es)
     = (True, Entries (es @ [entry]))"
  by (simp add: shouldBlacklist_def recordFailure_def new_SmartRetryQueue_def Let_def
      logBlacklistedDocument_def)

text \<open>
  Claim C3, at the point where the code departs from it. For any document, after three
  recorded failures in a fresh ledger \<^verbatim>\<open>shouldBlacklist\<close> returns true, and in the module
  the crawler runs as (an ES module, where \<^verbatim>\<open>require\<close> is unbound) the blacklist log is
  left exactly as it was: no entry is appended.
\<close>

theorem shouldBlacklist_third_failure_logs_nothing:
  "shouldBlacklist crawler_module_scope now q
     (snd (recordFailure q a3 t3 (snd (recordFailure q a2 t2
        (snd (recordFailure q a1 t1 (new_SmartRetryQueue 3))))))) file
     = (True, file)"
  by (simp add: shouldBlacklist_def recordFailure_def new_SmartRetryQueue_def Let_def
      logBlacklistedDocument_def crawler_module_scope_def)

subsection \<open>The worker's handling of a failed extraction\<close>

text \<open>
  Counterexample to claim C5: a worker of the case-based pattern (the one
  \<^verbatim>\<open>startParallelProcessing\<close> starts) processes a document whose extraction returns null.
  The retry ledger holds no record of the failure afterwards, nothing is logged and the
  worker's state is unchanged.
\<close>

theorem case_queue_failure_not_recorded:
  "failedDocuments (ws_retryQueue (process_document True True ex_env 1 ex_doc ex_case_state))
     (d_queueId ex_doc) = None \<and>
   process_document True True ex_env 1 ex_doc ex_case_state = ex_case_state"
  by (simp add: process_document_def duplicate_check_def isInPipeline_def loadPipelineData_def
      ex_env_def ex_case_state_def checkDocumentExistsByUrl_def checkDocumentExistsByUrl_try_def
      extract_if_needed_def handle_result_def new_SmartRetryQueue_def)

text \<open>
  Claim C5 as amended. In the shared-queue pattern a failed extraction is recorded in the
  retry ledger (one more attempt, with the error "No text extracted"); then, while the
  attempts are below the maximum, the unit is appended to the shared queue it came from,
  and otherwise it is logged as blacklisted, counted as an error and dropped. In the
  case-based pattern a failed extraction changes nothing: no record, no re-enqueue.
\<close>

theorem worker_failure_handling_by_pattern:
  assumes "ws_sharedQueue s = Some sq"
  shows "(let s' = handle_result False env w doc None s;
              n = length (attempts_of (ws_retryQueue s) (d_queueId doc))
          in attempts_of (ws_retryQueue s') (d_queueId doc) =
               attempts_of (ws_retryQueue s) (d_queueId doc) @
                 [\<lparr>att_error = ''No text extracted'', att_workerId = w,
                   att_documentName = d_text doc, att_caseNumber = caseNumber (d_caseInfo doc),
                   att_documentUrl = d_href doc, att_timestamp = env_now env\<rparr>] \<and>
             (if n + 1 < maxRetries (ws_retryQueue s)
              then ws_sharedQueue s' = Some (sq @ [doc]) \<and>
                   ws_log s' = ws_log s @ [Log_requeued (n + 2)] \<and>
                   ws_progressTracker s' = ws_progressTracker s
              else ws_sharedQueue s' = Some sq \<and>
                   ws_log s' = ws_log s @ [Log_blacklisted] \<and>
                   ws_progressTracker s' = map_option recordError (ws_progressTracker s))) \<and>
         handle_result True env w doc None s0 = s0"
  using assms
  by (auto simp: handle_result_def Let_def attempts_of_def recordFailure_def shouldRetry_def
      shouldBlacklist_def split: option.splits prod.splits)

text \<open>
  Witness for C5: the first failure of a document in a shared-queue worker with an empty
  queue: one attempt is recorded and the document is back in the queue.
\<close>

theorem worker_failure_handling_witness:
  "ws_sharedQueue ex_shared_state = Some [] \<and>
   length (attempts_of (ws_retryQueue (handle_result False ex_env 1 ex_doc None ex_shared_state))
             (d_queueId ex_doc)) = 1 \<and>
   ws_sharedQueue (handle_result False ex_env 1 ex_doc None ex_shared_state) = Some [ex_doc] \<and>
   ws_log (handle_result False ex_env 1 ex_doc None ex_shared_state) = [Log_requeued 2]"
  using worker_failure_handling_by_pattern [of ex_shared_state "[]" ex_env 1 ex_doc ex_case_state]
  by (simp add: ex_shared_state_def ex_case_state_def attempts_of_def new_SmartRetryQueue_def
      Let_def)

subsection \<open>getNextCase\<close>

lemma wait_for_lock_found:
  "wait_for_lock ts = Some (u, us) \<Longrightarrow> u \<in> set ts \<and> set us \<subseteq> set ts \<and> \<not> lockInUse u"
  by (induction ts) (auto split: if_splits)

lemma getNextCase_loop_null:
  "getNextCase_loop st ticks = Some No_more_work \<Longrightarrow> \<exists>t\<in>set ticks. gives_up st t"
proof (induction st ticks rule: getNextCase_loop.induct)
  case (1 startTime)
  then show ?case by simp
next
  case (2 startTime t ts)
  show ?case
  proof (cases "now_ms t - startTime > (if discoveryComplete t then baseWaitTime else extendedWaitTime)")
    case True
    then show ?thesis by (auto simp: gives_up_def)
  next
    case False
    note within = False
    show ?thesis
    proof (cases "wait_for_lock (t # ts)")
      case None
      with within 2(3) show ?thesis by (simp add: Let_def del: wait_for_lock.simps)
    next
      case (Some p)
      obtain u us where p: "p = (u, us)" by (cases p)
      from wait_for_lock_found[OF Some[unfolded p]]
      have u: "u \<in> set (t # ts)" "set us \<subseteq> set (t # ts)" "\<not> lockInUse u" by auto
      show ?thesis
      proof (cases "caseQueue u = []")
        case False
        with within 2(3) Some p show ?thesis by (simp add: Let_def del: wait_for_lock.simps)
      next
        case True
        note empty = True
        show ?thesis
        proof (cases "discoveryComplete u")
          case True
          with empty u show ?thesis by (auto simp: gives_up_def simp del: wait_for_lock.simps)
        next
          case False
          with empty within 2(3) Some p
          have rec: "getNextCase_loop startTime us = Some No_more_work"
            by (simp add: Let_def del: wait_for_lock.simps)
          have nq: "\<not> 0 < length (caseQueue u)" using empty by simp
          have "\<exists>t\<in>set us. gives_up startTime t"
            by (rule 2(2)[OF refl within Some p[symmetric] nq False rec])
          with u show ?thesis by auto
        qed
      qed
    qed
  qed
qed

text \<open>
  An iteration within the limit that has to wait for the lock, and then finds the queue
  non-empty, returns the front bundle as well.
\<close>

lemma getNextCase_after_lock_wait:
  "now_ms t - st \<le> (if discoveryComplete t then baseWaitTime else extendedWaitTime) \<Longrightarrow>
   wait_for_lock (t # ts) = Some (u, us) \<Longrightarrow> caseQueue u = b # bs \<Longrightarrow>
   getNextCase st (t # ts) = Some (Next_case b bs)"
  by (simp add: getNextCase_def Let_def del: wait_for_lock.simps)

text \<open>
  Counterexample to claim C6. With discovery complete and the queue empty the call
  answers null on its first iteration, when no time has elapsed. And with discovery still
  running, a call that found the queue empty at first and resumes after 120001 ms
  answers null although discovery is not complete and a bundle is in the queue.
\<close>

theorem getNextCase_null_without_waiting_and_during_discovery:
  "getNextCase 0 [ex_tick] = Some No_more_work \<and>
   getNextCase 0 [ex_tick\<lparr>discoveryComplete := False\<rparr>,
                  ex_tick\<lparr>now_ms := 120001, now_again_ms := 120001, discoveryComplete := False,
                          caseQueue := [ex_bundle]\<rparr>] = Some No_more_work"
  by (simp add: getNextCase_def ex_tick_def baseWaitTime_def extendedWaitTime_def)

text \<open>
  Claim C6 as amended. \<^verbatim>\<open>getNextCase\<close> answers null only when some iteration either finds
  the elapsed time above the limit in force (30 s once discovery is complete, 120 s
  before), or finds the lock free, the queue empty and discovery complete (then at once,
  whatever time has elapsed). So it does not answer null while every iteration sees
  discovery running and at most 120 s elapsed. An iteration within the limit that finds
  the lock free and the queue non-empty returns the front bundle and leaves the rest.
\<close>

theorem getNextCase_null_conditions:
  "(getNextCase st ticks = Some No_more_work \<longrightarrow> (\<exists>t\<in>set ticks. gives_up st t)) \<and>
   ((\<forall>t\<in>set ticks. \<not> discoveryComplete t \<and> now_ms t - st \<le> extendedWaitTime) \<longrightarrow>
      getNextCase st ticks \<noteq> Some No_more_work) \<and>
   (now_ms t - st \<le> (if discoveryComplete t then baseWaitTime else extendedWaitTime) \<and>
    \<not> lockInUse t \<and> caseQueue t = b # bs \<longrightarrow>
      getNextCase st (t # ts) = Some (Next_case b bs))"
proof (intro conjI impI)
  assume "getNextCase st ticks = Some No_more_work"
  then show "\<exists>t\<in>set ticks. gives_up st t"
    by (simp add: getNextCase_def getNextCase_loop_null)
next
  assume running: "\<forall>t\<in>set ticks. \<not> discoveryComplete t \<and> now_ms t - st \<le> extendedWaitTime"
  show "getNextCase st ticks \<noteq> Some No_more_work"
  proof
    assume "getNextCase st ticks = Some No_more_work"
    then obtain t where "t \<in> set ticks" "gives_up st t"
      using getNextCase_loop_null by (auto simp: getNextCase_def)
    with running show False by (auto simp: gives_up_def)
  qed
next
  assume "now_ms t - st \<le> (if discoveryComplete t then baseWaitTime else extendedWaitTime) \<and>
    \<not> lockInUse t \<and> caseQueue t = b # bs"
  then show "getNextCase st (t # ts) = Some (Next_case b bs)"
    by (simp add: getNextCase_def Let_def)
qed

text \<open>
  Witness for C6: a null answer at the first iteration (queue empty, discovery complete),
  a call that is still waiting while discovery runs, and a call that takes the front
  bundle.
\<close>

theorem getNextCase_null_conditions_witness:
  "getNextCase 0 [ex_tick] = Some No_more_work \<and> gives_up 0 ex_tick \<and>
   \<not> discoveryComplete (ex_tick\<lparr>discoveryComplete := False\<rparr>) \<and>
   now_ms (ex_tick\<lparr>discoveryComplete := False\<rparr>) - 0 \<le> extendedWaitTime \<and>
   getNextCase 0 [ex_tick\<lparr>discoveryComplete := False\<rparr>] = None \<and>
   now_ms (ex_tick\<lparr>caseQueue := [ex_bundle]\<rparr>) - 0 \<le> baseWaitTime \<and>
   getNextCase 0 [ex_tick\<lparr>caseQueue := [ex_bundle]\<rparr>] = Some (Next_case ex_bundle [])"
  using getNextCase_null_conditions
          [of 0 "[ex_tick]" "ex_tick\<lparr>caseQueue := [ex_bundle]\<rparr>" ex_bundle "[]" "[]"]
        getNextCase_null_conditions
          [of 0 "[ex_tick\<lparr>discoveryComplete := False\<rparr>]" ex_tick ex_bundle "[]" "[]"]
  by (simp add: getNextCase_def ex_tick_def gives_up_def baseWaitTime_def extendedWaitTime_def)

subsection \<open>The pipeline file\<close>

lemma savePipeline_resets_processedDocuments:
  "loadPipelineData (savePipeline True now cs file) = Some pd \<Longrightarrow> pd_processedDocuments pd = Some []"
  by (auto simp: savePipeline_def loadPipelineData_def)

text \<open>
  Claim C7, at the point where the code departs from it. A pipeline is saved, a document
  is marked as processed (the file then holds its key), and the pipeline is saved again
  after the next discovery batch: the rewritten file holds no processed-document key.
\<close>

theorem savePipeline_discards_processed_markers:
  "map_option pd_processedDocuments
     (loadPipelineData
        (updatePipelineAfterDocument True ''DIRECT SMITH.PDF'' ''IPC-E-24-01''
           (savePipeline True ''t1'' [ex_case] NoPipeline)))
     = Some (Some [''IPC-E-24-01:DIRECT SMITH.PDF'']) \<and>
   map_option pd_processedDocuments
     (loadPipelineData
        (savePipeline True ''t2'' [ex_case]
           (updatePipelineAfterDocument True ''DIRECT SMITH.PDF'' ''IPC-E-24-01''
              (savePipeline True ''t1'' [ex_case] NoPipeline))))
     = Some (Some [])"
  by (simp add: savePipeline_def updatePipelineAfterDocument_def loadPipelineData_def)

subsection \<open>Clearing the pipeline file\<close>




subsection \<open>The chunker\<close>

lemma ws_free_simps [simp]:
  "ws_free []" "ws_free (c # cs) = (\<not> is_ws c \<and> ws_free cs)"
  "ws_free (u @ v) = (ws_free u \<and> ws_free v)"
  by (auto simp: ws_free_def)

lemma split_ws_not_Nil [simp]: "split_ws s \<noteq> []"
  by (induction s rule: split_ws.induct) (auto split: list.splits)

lemma split_ws_ws_free: "w \<in> set (split_ws s) \<Longrightarrow> ws_free w"
  by (induction s arbitrary: w rule: split_ws.induct) (auto split: list.splits if_splits)

lemma split_ws_word_append:
  "ws_free v \<Longrightarrow> split_ws (v @ s) = (v @ hd (split_ws s)) # tl (split_ws s)"
  by (induction v) (auto split: list.splits)

lemma split_ws_space:
  "is_ws c \<Longrightarrow> s = [] \<or> \<not> is_ws (hd s) \<Longrightarrow> split_ws (c # s) = [] # split_ws s"
  by (cases s) auto

lemma join_sp_hd:
  "vs \<noteq> [] \<Longrightarrow> list_all word_ok vs \<Longrightarrow> join_sp vs \<noteq> [] \<and> \<not> is_ws (hd (join_sp vs))"
  by (induction vs rule: join_sp.induct) (auto simp: word_ok_def neq_Nil_conv)

lemma split_ws_join_sp:
  "vs \<noteq> [] \<Longrightarrow> list_all word_ok vs \<Longrightarrow> split_ws (join_sp vs) = vs"
proof (induction vs rule: join_sp.induct)
  case 1
  then show ?case by simp
next
  case (2 w)
  then have "ws_free w" by (simp add: word_ok_def)
  from split_ws_word_append[OF this, of "[]"] show ?case by simp
next
  case (3 w v ws)
  then have "word_ok w" and rest: "list_all word_ok (v # ws)" by simp_all
  then have w: "ws_free w" by (simp add: word_ok_def)
  have ih: "split_ws (join_sp (v # ws)) = v # ws" using 3 rest by simp
  have hd: "join_sp (v # ws) \<noteq> [] \<and> \<not> is_ws (hd (join_sp (v # ws)))"
    using join_sp_hd[OF _ rest] by simp
  have sp: "is_ws (CHR '' '')" by (simp add: is_ws_def)
  have "split_ws (CHR '' '' # join_sp (v # ws)) = [] # v # ws"
    using split_ws_space[OF sp, of "join_sp (v # ws)"] hd ih by simp
  then show ?case using split_ws_word_append[OF w, of "CHR '' '' # join_sp (v # ws)"] by simp
qed

lemma join_sp_snoc: "vs \<noteq> [] \<Longrightarrow> join_sp (vs @ [w]) = join_sp vs @ '' '' @ w"
  by (induction vs rule: join_sp.induct) auto

lemma join_sp_Cons: "vs \<noteq> [] \<Longrightarrow> join_sp (v # vs) = v @ '' '' @ join_sp vs"
  by (cases vs) auto

lemma suffix_join_sp_drop: "suffix (join_sp (drop n vs)) (join_sp vs)"
proof (induction vs arbitrary: n)
  case Nil
  then show ?case by simp
next
  case (Cons v vs)
  show ?case
  proof (cases n)
    case 0
    then show ?thesis by simp
  next
    case (Suc m)
    have "suffix (join_sp (drop m vs)) (join_sp vs)" by (rule Cons.IH)
    moreover have "suffix (join_sp vs) (join_sp (v # vs))"
      by (cases vs) (auto simp: suffix_def)
    ultimately show ?thesis using Suc by (auto intro: suffix_order.trans)
  qed
qed

lemma split_ws_inner_nonempty:
  "x \<in> set (butlast (tl (split_ws s))) \<Longrightarrow> x \<noteq> []"
proof (induction s arbitrary: x rule: split_ws.induct)
  case 1
  then show ?case by simp
next
  case (2 c cs)
  show ?case
  proof (cases "is_ws c")
    case False
    with 2 show ?thesis by (auto split: list.splits)
  next
    case True
    let ?s = "dropWhile is_ws cs"
    from True 2(3) have x: "x \<in> set (butlast (split_ws ?s))" by simp
    show ?thesis
    proof (cases ?s)
      case Nil
      with x show ?thesis by simp
    next
      case (Cons d ds)
      then have d: "\<not> is_ws d" by (metis hd_dropWhile list.sel(1) list.distinct(1))
      obtain w ws where sp: "split_ws ds = w # ws" by (cases "split_ws ds") auto
      with Cons d have eq: "split_ws ?s = (d # w) # ws" by simp
      show ?thesis
      proof (cases "ws = []")
        case True
        with x eq show ?thesis by simp
      next
        case False
        with x eq have "x = d # w \<or> x \<in> set (butlast ws)" by auto
        moreover have "butlast (tl (split_ws ?s)) = butlast ws" using eq by simp
        ultimately show ?thesis using 2(1)[OF True, of x] by auto
      qed
    qed
  qed
qed

lemma concat_split_ws: "set (concat (split_ws s)) = {c \<in> set s. \<not> is_ws c}"
proof (induction s rule: split_ws.induct)
  case 1
  then show ?case by simp
next
  case (2 c cs)
  show ?case
  proof (cases "is_ws c")
    case True
    have "{x \<in> set (dropWhile is_ws cs). \<not> is_ws x} = {x \<in> set cs. \<not> is_ws x}"
      by (induction cs) auto
    with True 2 show ?thesis by auto
  next
    case False
    obtain w ws where sp: "split_ws cs = w # ws" by (cases "split_ws cs") auto
    then have "set (concat (split_ws (c # cs))) = insert c (set (concat (split_ws cs)))"
      using False by simp
    also have "\<dots> = insert c {x \<in> set cs. \<not> is_ws x}" using 2(2)[OF False] by simp
    also have "\<dots> = {x \<in> set (c # cs). \<not> is_ws x}" using False by auto
    finally show ?thesis .
  qed
qed

lemma trim_nonempty: "\<exists>c\<in>set s. \<not> is_ws c \<Longrightarrow> trim s \<noteq> []"
proof -
  assume "\<exists>c\<in>set s. \<not> is_ws c"
  then have "\<exists>c\<in>set (dropWhile is_ws s). \<not> is_ws c"
    by (induction s) auto
  then have "\<exists>c\<in>set (rev (dropWhile is_ws s)). \<not> is_ws c" by simp
  then have "dropWhile is_ws (rev (dropWhile is_ws s)) \<noteq> []"
    by (metis dropWhile_eq_Nil_conv)
  then show ?thesis by (simp add: trim_def)
qed

lemma chunk_step_first [simp]:
  "chunk_step d c md ([], idx, chunks) w = (w, idx, chunks)"
  by (simp add: chunk_step_def)

lemma chunk_step_split:
  "cur \<noteq> [] \<Longrightarrow> length cur + 1 + length w > CHUNK_SIZE \<Longrightarrow>
   chunk_step d c md (cur, idx, chunks) w =
     (overlap_text cur @ '' '' @ w, idx + 1, chunks @ [new_chunk d c md cur idx])"
  by (simp add: chunk_step_def overlap_text_def Let_def)

lemma chunk_step_keep:
  "cur \<noteq> [] \<Longrightarrow> length cur + 1 + length w \<le> CHUNK_SIZE \<Longrightarrow>
   chunk_step d c md (cur, idx, chunks) w = (cur @ '' '' @ w, idx, chunks)"
  by (simp add: chunk_step_def Let_def)

text \<open>The three ways a step can go.\<close>

lemma chunk_step_cases:
  obtains (first) "cur = []" "chunk_step d c md (cur, idx, chunks) w = (w, idx, chunks)"
  | (keep) "cur \<noteq> []" "length cur + 1 + length w \<le> CHUNK_SIZE"
      "chunk_step d c md (cur, idx, chunks) w = (cur @ '' '' @ w, idx, chunks)"
  | (split) "cur \<noteq> []" "length cur + 1 + length w > CHUNK_SIZE"
      "chunk_step d c md (cur, idx, chunks) w =
         (overlap_text cur @ '' '' @ w, idx + 1, chunks @ [new_chunk d c md cur idx])"
proof (cases "cur = []")
  case True
  then show ?thesis using first by simp
next
  case False
  show ?thesis
  proof (cases "length cur + 1 + length w \<le> CHUNK_SIZE")
    case True
    with False show ?thesis using keep chunk_step_keep by blast
  next
    case False
    with \<open>cur \<noteq> []\<close> show ?thesis using split chunk_step_split by (metis not_le)
  qed
qed

lemma foldl_invariant:
  "P s \<Longrightarrow> (\<And>s x. x \<in> set xs \<Longrightarrow> P s \<Longrightarrow> P (f s x)) \<Longrightarrow> P (foldl f s xs)"
  by (induction xs arbitrary: s) auto

subsection \<open>indices\<close>

lemma idx_inv_step: "idx_inv st \<Longrightarrow> idx_inv (chunk_step d c md st w)"
proof -
  assume inv: "idx_inv st"
  obtain cur idx chunks where st: "st = (cur, idx, chunks)" by (cases st) auto
  show ?thesis
    by (cases rule: chunk_step_cases[of cur d c md idx chunks w])
       (use inv st in \<open>auto simp: idx_inv_def new_chunk_def\<close>)
qed

lemma idx_inv_loop: "idx_inv (chunk_loop d c md ws)"
  unfolding chunk_loop_def
  by (rule foldl_invariant) (simp_all add: idx_inv_def idx_inv_step[unfolded idx_inv_def])

lemma createChunks_indices:
  "map chunk_index (createChunks input d c md) = [0..<length (createChunks input d c md)]"
proof -
  obtain cur idx chunks where st: "chunk_loop d c md (split_ws input) = (cur, idx, chunks)"
    by (cases "chunk_loop d c md (split_ws input)") auto
  from idx_inv_loop[of d c md "split_ws input"] st
  have "idx = length chunks" "map chunk_index chunks = [0..<length chunks]"
    by (simp_all add: idx_inv_def)
  then show ?thesis by (simp add: createChunks_def st new_chunk_def)
qed

subsection \<open>at least one chunk\<close>

lemma has_text_step:
  "has_text st \<or> (\<exists>x\<in>set w. \<not> is_ws x) \<Longrightarrow> has_text (chunk_step d c md st w)"
proof -
  assume h: "has_text st \<or> (\<exists>x\<in>set w. \<not> is_ws x)"
  obtain cur idx chunks where st: "st = (cur, idx, chunks)" by (cases st) auto
  show ?thesis
    by (cases rule: chunk_step_cases[of cur d c md idx chunks w])
       (use h st in \<open>auto simp: has_text_def\<close>)
qed

lemma has_text_foldl:
  "has_text st \<or> (\<exists>w\<in>set ws. \<exists>x\<in>set w. \<not> is_ws x) \<Longrightarrow>
   has_text (foldl (chunk_step d c md) st ws)"
proof (induction ws arbitrary: st)
  case Nil
  then show ?case by simp
next
  case (Cons w ws)
  show ?case
  proof (cases "has_text st \<or> (\<exists>x\<in>set w. \<not> is_ws x)")
    case True
    then have "has_text (chunk_step d c md st w)" by (rule has_text_step)
    then show ?thesis using Cons.IH by simp
  next
    case False
    with Cons.prems have "\<exists>w\<in>set ws. \<exists>x\<in>set w. \<not> is_ws x" by auto
    then show ?thesis using Cons.IH by simp
  qed
qed

lemma createChunks_nonempty:
  assumes "\<exists>x\<in>set input. \<not> is_ws x"
  shows "createChunks input d c md \<noteq> []"
proof -
  from assms obtain x where x: "x \<in> set input" "\<not> is_ws x" by blast
  then have "x \<in> {c \<in> set input. \<not> is_ws c}" by simp
  then have "x \<in> set (concat (split_ws input))" by (simp only: concat_split_ws)
  then obtain w where "w \<in> set (split_ws input)" "x \<in> set w" by auto
  with x have "\<exists>w\<in>set (split_ws input). \<exists>x\<in>set w. \<not> is_ws x" by blast
  then have "has_text ([], 0, []) \<or> (\<exists>w\<in>set (split_ws input). \<exists>x\<in>set w. \<not> is_ws x)" ..
  then have ht: "has_text (chunk_loop d c md (split_ws input))"
    unfolding chunk_loop_def by (rule has_text_foldl)
  obtain cur idx chunks where st: "chunk_loop d c md (split_ws input) = (cur, idx, chunks)"
    by (cases "chunk_loop d c md (split_ws input)") auto
  with ht have "chunks \<noteq> [] \<or> (\<exists>x\<in>set cur. \<not> is_ws x)" by (simp add: has_text_def)
  then have "chunks \<noteq> [] \<or> trim cur \<noteq> []" using trim_nonempty by blast
  then show ?thesis by (auto simp: createChunks_def st)
qed

text \<open>A text of whitespace only (the empty text included) gives no chunk.\<close>

lemma chunk_loop_empty_words:
  "\<forall>w\<in>set ws. w = [] \<Longrightarrow>
   foldl (chunk_step d c md) ([], idx, chunks) ws = ([], idx, chunks)"
  by (induction ws) simp_all

lemma createChunks_whitespace_only:
  assumes "\<forall>x\<in>set input. is_ws x"
  shows "createChunks input d c md = []"
proof -
  have "set (concat (split_ws input)) = {}" using assms by (simp only: concat_split_ws) simp
  then have "\<forall>w\<in>set (split_ws input). w = []" by auto
  then have "chunk_loop d c md (split_ws input) = ([], 0, [])"
    unfolding chunk_loop_def by (rule chunk_loop_empty_words)
  then show ?thesis by (simp add: createChunks_def trim_def)
qed

subsection \<open>links between consecutive chunks\<close>

lemma link_not_Nil: "link W p c \<Longrightarrow> c \<noteq> []"
  by (auto simp: link_def)

lemma link_extend:
  "link W p cur \<Longrightarrow> length (cur @ x) \<le> CHUNK_SIZE \<Longrightarrow> link W p (cur @ x)"
  unfolding link_def by (meson prefix_order.trans prefixI)

lemma link_seed: "w \<in> W \<Longrightarrow> link W p (overlap_text p @ '' '' @ w)"
  unfolding link_def by blast

lemma content_new_chunk [simp]: "content (new_chunk d c md cur idx) = cur"
  by (simp add: new_chunk_def)

lemma link_inv_step:
  assumes w: "w \<in> W" and inv: "link_inv W st"
  shows "link_inv W (chunk_step d c md st w)"
proof -
  obtain cur idx chunks where st: "st = (cur, idx, chunks)" by (cases st) auto
  from inv st have
    a: "chunks = [] \<Longrightarrow> length cur \<le> CHUNK_SIZE \<or> cur \<in> W" and
    b: "chunks \<noteq> [] \<Longrightarrow> link W (content (last chunks)) cur" and
    c: "chunks \<noteq> [] \<Longrightarrow> length (content (hd chunks)) \<le> CHUNK_SIZE \<or> content (hd chunks) \<in> W" and
    s: "successively (link W) (map content chunks)"
    by (auto simp: link_inv_def)
  show ?thesis
  proof (cases rule: chunk_step_cases[of cur d c md idx chunks w])
    case first
    have "chunks = []" using b first(1) link_not_Nil by blast
    then show ?thesis using first st w s by (simp add: link_inv_def)
  next
    case keep
    have len: "length (cur @ '' '' @ w) \<le> CHUNK_SIZE" using keep(2) by simp
    have "chunks \<noteq> [] \<Longrightarrow> link W (content (last chunks)) (cur @ '' '' @ w)"
      using b link_extend[OF _ len] by blast
    then show ?thesis using keep(3) st len c s unfolding link_inv_def by auto
  next
    case split
    have l: "link W cur (overlap_text cur @ '' '' @ w)" by (rule link_seed[OF w])
    have hd: "length (content (hd (chunks @ [new_chunk d c md cur idx]))) \<le> CHUNK_SIZE \<or>
              content (hd (chunks @ [new_chunk d c md cur idx])) \<in> W"
      using a c by (cases chunks) auto
    have succ: "successively (link W) (map content (chunks @ [new_chunk d c md cur idx]))"
      using s b by (cases "chunks = []") (auto simp: successively_append_iff last_map)
    show ?thesis using split(3) st l hd succ unfolding link_inv_def by simp
  qed
qed

lemma link_inv_loop: "link_inv (set ws) (chunk_loop d c md ws)"
  unfolding chunk_loop_def
proof (rule foldl_invariant)
  show "link_inv (set ws) ([], 0, [])" by (simp add: link_inv_def)
next
  fix s x assume "x \<in> set ws" "link_inv (set ws) s"
  then show "link_inv (set ws) (chunk_step d c md s x)" by (rule link_inv_step)
qed

subsection \<open>emitted chunks are words joined by single spaces\<close>

lemma wfb_not_Nil: "wfb s \<Longrightarrow> s \<noteq> []"
  using join_sp_hd by (auto simp: wfb_def)

lemma wfb_word: "word_ok w \<Longrightarrow> wfb w"
  unfolding wfb_def by (rule exI[of _ "[w]"]) simp

lemma wfb_snoc: "wfb s \<Longrightarrow> word_ok w \<Longrightarrow> wfb (s @ '' '' @ w)"
proof -
  assume "wfb s" and w: "word_ok w"
  then obtain vs where vs: "vs \<noteq> []" "list_all word_ok vs" "s = join_sp vs"
    by (auto simp: wfb_def)
  have "s @ '' '' @ w = join_sp (vs @ [w])" using vs join_sp_snoc by simp
  moreover have "list_all word_ok (vs @ [w])" using vs w by simp
  ultimately show ?thesis unfolding wfb_def by blast
qed

lemma overlap_text_wfb:
  assumes "wfb p"
  shows "wfb (overlap_text p)" and "suffix (overlap_text p) p"
proof -
  from assms obtain vs where vs: "vs \<noteq> []" "list_all word_ok vs" "p = join_sp vs"
    by (auto simp: wfb_def)
  have sp: "split_ws p = vs" using vs split_ws_join_sp by simp
  obtain k where k: "slice_last (CHUNK_OVERLAP div 10) vs = drop k vs" "k < length vs"
  proof (cases "CHUNK_OVERLAP div 10 = 0")
    case True
    then have "slice_last (CHUNK_OVERLAP div 10) vs = drop 0 vs" by (simp add: slice_last_def)
    then show ?thesis using that vs(1) by blast
  next
    case False
    then have "slice_last (CHUNK_OVERLAP div 10) vs = drop (length vs - CHUNK_OVERLAP div 10) vs"
      by (simp add: slice_last_def)
    moreover have "length vs - CHUNK_OVERLAP div 10 < length vs" using False vs(1) by simp
    ultimately show ?thesis using that by blast
  qed
  have ov: "overlap_text p = join_sp (drop k vs)" by (simp add: overlap_text_def sp k)
  have "drop k vs \<noteq> []" using k by simp
  moreover have "list_all word_ok (drop k vs)" using vs(2) by (simp add: list_all_iff) (meson in_set_dropD)
  ultimately show "wfb (overlap_text p)" unfolding wfb_def ov by blast
  show "suffix (overlap_text p) p" using suffix_join_sp_drop[of k vs] ov vs(3) by simp
qed

lemma wf_loop:
  assumes "cur = [] \<or> wfb cur" "list_all wfb (map content chunks)"
    "list_all ws_free ws" "list_all (\<lambda>w. w \<noteq> []) (butlast ws)"
  shows "list_all wfb (map content (snd (snd (foldl (chunk_step d c md) (cur, idx, chunks) ws))))"
  using assms
proof (induction ws arbitrary: cur idx chunks)
  case Nil
  then show ?case by simp
next
  case (Cons w ws)
  show ?case
  proof (cases rule: chunk_step_cases[of cur d c md idx chunks w])
    case first
    have "w = [] \<or> wfb w"
      using Cons.prems(3) by (cases "w = []") (auto intro: wfb_word simp: word_ok_def)
    moreover have "list_all (\<lambda>w. w \<noteq> []) (butlast ws)" using Cons.prems(4) by (cases ws) auto
    ultimately show ?thesis using first(2) Cons.IH[of w chunks idx] Cons.prems by simp
  next
    case keep
    show ?thesis
    proof (cases "ws = []")
      case True
      then show ?thesis using keep(3) Cons.prems(2) by simp
    next
      case False
      then have "word_ok w" using Cons.prems(3,4) by (simp add: word_ok_def)
      then have "wfb (cur @ '' '' @ w)" using keep(1) Cons.prems(1) wfb_snoc by blast
      moreover have "list_all (\<lambda>w. w \<noteq> []) (butlast ws)" using Cons.prems(4) False by simp
      ultimately show ?thesis using keep(3) Cons.IH[of "cur @ '' '' @ w" chunks idx] Cons.prems by simp
    qed
  next
    case split
    have cur: "wfb cur" using split(1) Cons.prems(1) by blast
    then have chunks': "list_all wfb (map content (chunks @ [new_chunk d c md cur idx]))"
      using Cons.prems(2) by simp
    show ?thesis
    proof (cases "ws = []")
      case True
      then show ?thesis using split(3) chunks' by simp
    next
      case False
      then have "word_ok w" using Cons.prems(3,4) by (simp add: word_ok_def)
      then have "wfb (overlap_text cur @ '' '' @ w)"
        using overlap_text_wfb(1)[OF cur] wfb_snoc by blast
      moreover have "list_all (\<lambda>w. w \<noteq> []) (butlast ws)" using Cons.prems(4) False by simp
      ultimately show ?thesis
        using split(3) Cons.IH[of "overlap_text cur @ '' '' @ w" "chunks @ [new_chunk d c md cur idx]" "idx + 1"]
          chunks' Cons.prems(3) by simp
    qed
  qed
qed

lemma split_ws_butlast_nonempty:
  "hd (split_ws s) \<noteq> [] \<Longrightarrow> list_all (\<lambda>w. w \<noteq> []) (butlast (split_ws s))"
proof -
  assume h: "hd (split_ws s) \<noteq> []"
  obtain w ws where sp: "split_ws s = w # ws" by (cases "split_ws s") auto
  have "\<forall>x\<in>set (butlast ws). x \<noteq> []" using split_ws_inner_nonempty[of _ s] sp by simp
  then show ?thesis using h sp by (auto simp: list_all_iff)
qed

lemma wf_chunk_loop: "list_all wfb (map content (snd (snd (chunk_loop d c md (split_ws s)))))"
proof (cases "hd (split_ws s) = []")
  case False
  have "list_all ws_free (split_ws s)" using split_ws_ws_free by (auto simp: list_all_iff)
  then show ?thesis unfolding chunk_loop_def
    using wf_loop[of "[]" "[]" "split_ws s" d c md 0] split_ws_butlast_nonempty[OF False] by simp
next
  case True
  obtain ws where sp: "split_ws s = [] # ws" using True by (cases "split_ws s") auto
  have "list_all ws_free ws" using split_ws_ws_free[of _ s] sp by (auto simp: list_all_iff)
  moreover have "list_all (\<lambda>w. w \<noteq> []) (butlast ws)"
    using split_ws_inner_nonempty[of _ s] sp by (auto simp: list_all_iff)
  ultimately show ?thesis unfolding chunk_loop_def sp
    using wf_loop[of "[]" "[]" ws d c md 0] by simp
qed

subsection \<open>the output of createChunks\<close>

lemma createChunks_structure:
  "successively (link (set (split_ws input))) (map content (createChunks input d c md)) \<and>
   (\<forall>i. Suc i < length (createChunks input d c md) \<longrightarrow>
        wfb (content (createChunks input d c md ! i))) \<and>
   (createChunks input d c md \<noteq> [] \<longrightarrow>
      length (content (hd (createChunks input d c md))) \<le> CHUNK_SIZE \<or>
      content (hd (createChunks input d c md)) \<in> set (split_ws input))"
proof -
  let ?W = "set (split_ws input)"
  obtain cur idx chunks where st: "chunk_loop d c md (split_ws input) = (cur, idx, chunks)"
    by (cases "chunk_loop d c md (split_ws input)") auto
  from link_inv_loop[of "split_ws input" d c md] st have
    a: "chunks = [] \<Longrightarrow> length cur \<le> CHUNK_SIZE \<or> cur \<in> ?W" and
    b: "chunks \<noteq> [] \<Longrightarrow> link ?W (content (last chunks)) cur" and
    h: "chunks \<noteq> [] \<Longrightarrow> length (content (hd chunks)) \<le> CHUNK_SIZE \<or> content (hd chunks) \<in> ?W" and
    s: "successively (link ?W) (map content chunks)"
    by (auto simp: link_inv_def)
  from wf_chunk_loop[of d c md input] st have wf: "list_all wfb (map content chunks)" by simp
  let ?k = "new_chunk d c md cur idx"
  show ?thesis
  proof (cases "trim cur \<noteq> []")
    case False
    then have eq: "createChunks input d c md = chunks" by (simp add: createChunks_def st)
    have "\<forall>i. Suc i < length chunks \<longrightarrow> wfb (content (chunks ! i))"
      using wf by (simp add: list_all_length)
    then show ?thesis unfolding eq using s h by blast
  next
    case True
    then have eq: "createChunks input d c md = chunks @ [?k]" by (simp add: createChunks_def st)
    have 1: "successively (link ?W) (map content (chunks @ [?k]))"
      using s b by (cases "chunks = []") (auto simp: successively_append_iff last_map)
    have 2: "\<forall>i. Suc i < length (chunks @ [?k]) \<longrightarrow> wfb (content ((chunks @ [?k]) ! i))"
      using wf by (simp add: list_all_length nth_append)
    have 3: "length (content (hd (chunks @ [?k]))) \<le> CHUNK_SIZE \<or>
             content (hd (chunks @ [?k])) \<in> ?W"
      using a h by (cases chunks) auto
    show ?thesis unfolding eq using 1 2 3 by blast
  qed
qed

text \<open>
  Claim C4 as amended. For every input with at least one non-whitespace character
  \<^verbatim>\<open>createChunks\<close> produces at least one chunk. The chunk indices are exactly
  \<open>0, ..., n - 1\<close>. The first chunk is at most \<open>CHUNK_SIZE\<close> long unless it is a single word
  of the text; every later chunk is at most \<open>CHUNK_SIZE\<close> long unless it is exactly the seed
  of a split: the last \<open>CHUNK_OVERLAP div 10 = 20\<close> words of the previous chunk, a space,
  and the word that triggered the split.
\<close>

theorem createChunks_count_indices_and_lengths:
  "((\<exists>x\<in>set input. \<not> is_ws x) \<longrightarrow> length (createChunks input d c md) \<ge> 1) \<and>
   map chunk_index (createChunks input d c md) = [0..<length (createChunks input d c md)] \<and>
   (createChunks input d c md \<noteq> [] \<longrightarrow>
      length (content (hd (createChunks input d c md))) \<le> CHUNK_SIZE \<or>
      content (hd (createChunks input d c md)) \<in> set (split_ws input)) \<and>
   (\<forall>i. Suc i < length (createChunks input d c md) \<longrightarrow>
      length (content (createChunks input d c md ! Suc i)) \<le> CHUNK_SIZE \<or>
      (\<exists>word\<in>set (split_ws input).
         content (createChunks input d c md ! Suc i) =
           join_sp (slice_last (CHUNK_OVERLAP div 10)
                      (split_ws (content (createChunks input d c md ! i)))) @ '' '' @ word))"
proof (intro conjI impI allI)
  assume "\<exists>x\<in>set input. \<not> is_ws x"
  then have "createChunks input d c md \<noteq> []" by (rule createChunks_nonempty)
  then show "1 \<le> length (createChunks input d c md)" by (cases "createChunks input d c md") auto
next
  show "map chunk_index (createChunks input d c md) = [0..<length (createChunks input d c md)]"
    by (rule createChunks_indices)
next
  assume "createChunks input d c md \<noteq> []"
  then show "length (content (hd (createChunks input d c md))) \<le> CHUNK_SIZE \<or>
      content (hd (createChunks input d c md)) \<in> set (split_ws input)"
    using createChunks_structure[of input d c md] by blast
next
  fix i assume i: "Suc i < length (createChunks input d c md)"
  let ?cs = "createChunks input d c md"
  from createChunks_structure[of input d c md]
  have s: "successively (link (set (split_ws input))) (map content ?cs)" by blast
  from successively_nth[OF s, of i] i
  have "link (set (split_ws input)) (content (?cs ! i)) (content (?cs ! Suc i))" by simp
  then show "length (content (?cs ! Suc i)) \<le> CHUNK_SIZE \<or>
      (\<exists>word\<in>set (split_ws input).
         content (?cs ! Suc i) =
           join_sp (slice_last (CHUNK_OVERLAP div 10) (split_ws (content (?cs ! i)))) @ '' '' @ word)"
    unfolding link_def overlap_text_def by blast
qed

lemma split_ws_word: "word_ok w \<Longrightarrow> split_ws w = [w]"
  using split_ws_join_sp[of "[w]"] by simp

lemma createChunks_two_words:
  assumes A: "word_ok A" and B: "word_ok B"
    and big: "length A + 1 + length B > CHUNK_SIZE"
  shows "createChunks (A @ '' '' @ B) d c md =
           [new_chunk d c md A 0, new_chunk d c md (A @ '' '' @ B) 1]"
    and "split_ws (A @ '' '' @ B) = [A, B]"
proof -
  have sp: "split_ws (A @ '' '' @ B) = [A, B]"
    using split_ws_join_sp[of "[A, B]"] A B by simp
  have spA: "split_ws A = [A]" using split_ws_join_sp[of "[A]"] A by simp
  have ov: "overlap_text A = A" by (simp add: overlap_text_def spA slice_last_def)
  have A0: "A \<noteq> []" using A by (simp add: word_ok_def)
  have "chunk_loop d c md [A, B] = (A @ '' '' @ B, 1, [new_chunk d c md A 0])"
    using chunk_step_split[OF A0 big, of d c md 0 "[]"] by (simp add: chunk_loop_def ov)
  moreover have "trim (A @ '' '' @ B) \<noteq> []"
    using A by (intro trim_nonempty) (auto simp: word_ok_def ws_free_def neq_Nil_conv)
  ultimately show "createChunks (A @ '' '' @ B) d c md =
           [new_chunk d c md A 0, new_chunk d c md (A @ '' '' @ B) 1]"
    using sp by (simp add: createChunks_def)
  show "split_ws (A @ '' '' @ B) = [A, B]" by (rule sp)
qed

lemma word_ok_replicate: "0 < n \<Longrightarrow> \<not> is_ws x \<Longrightarrow> word_ok (replicate n x)"
  by (auto simp: word_ok_def ws_free_def)

lemma ex_two_words_chunks:
  "createChunks ex_two_words d c md =
     [new_chunk d c md (replicate 750 CHR ''a'') 0, new_chunk d c md ex_two_words 1]"
  "split_ws ex_two_words = [replicate 750 CHR ''a'', replicate 750 CHR ''b'']"
  unfolding ex_two_words_def
  by (rule createChunks_two_words; simp add: word_ok_replicate is_ws_def CHUNK_SIZE_def)+

text \<open>
  Counterexample to claim C4. The non-empty text consisting of one space gives no chunk.
  The text of two words of 750 characters, neither longer than the chunk size, gives a
  second chunk of 1501 characters.
\<close>

theorem createChunks_no_chunk_and_oversized_chunk:
  "createChunks '' '' 1 1 ex_md = [] \<and>
   split_ws ex_two_words = [replicate 750 CHR ''a'', replicate 750 CHR ''b''] \<and>
   map content_length (createChunks ex_two_words 1 1 ex_md) = [750, 1501]"
proof -
  have "createChunks '' '' 1 1 ex_md = []"
    by (simp add: createChunks_def chunk_loop_def is_ws_def trim_def)
  moreover have "map content_length (createChunks ex_two_words 1 1 ex_md) = [750, 1501]"
    by (simp add: ex_two_words_chunks new_chunk_def) (simp add: ex_two_words_def)
  ultimately show ?thesis using ex_two_words_chunks(2) by simp
qed

lemma slice_last_overlap:
  "slice_last (CHUNK_OVERLAP div 10) xs = drop (length xs - 20) xs"
  by (simp add: slice_last_def CHUNK_OVERLAP_def)

lemma carried_words:
  assumes "wfb p"
  shows "drop (length (split_ws p) - 20) (split_ws p) \<noteq> []"
    and "split_ws (join_sp (drop (length (split_ws p) - 20) (split_ws p))) =
           drop (length (split_ws p) - 20) (split_ws p)"
    and "suffix (join_sp (drop (length (split_ws p) - 20) (split_ws p))) p"
    and "overlap_text p = join_sp (drop (length (split_ws p) - 20) (split_ws p))"
proof -
  from assms obtain vs where vs: "vs \<noteq> []" "list_all word_ok vs" "p = join_sp vs"
    by (auto simp: wfb_def)
  have sp: "split_ws p = vs" using vs split_ws_join_sp by simp
  let ?k = "length vs - 20"
  have k: "?k < length vs" using vs(1) by simp
  then show ne: "drop (length (split_ws p) - 20) (split_ws p) \<noteq> []" unfolding sp by simp
  have "list_all word_ok (drop ?k vs)"
    using vs(2) by (simp add: list_all_iff) (meson in_set_dropD)
  then show "split_ws (join_sp (drop (length (split_ws p) - 20) (split_ws p))) =
           drop (length (split_ws p) - 20) (split_ws p)"
    unfolding sp using ne[unfolded sp] by (rule split_ws_join_sp[rotated])
  show "suffix (join_sp (drop (length (split_ws p) - 20) (split_ws p))) p"
    unfolding sp using suffix_join_sp_drop[of ?k vs] vs(3) by simp
  show "overlap_text p = join_sp (drop (length (split_ws p) - 20) (split_ws p))"
    by (simp add: overlap_text_def slice_last_overlap)
qed

lemma createChunks_carries_last_words:
  assumes "Suc i < length (createChunks input d c md)"
  shows "let prev = content (createChunks input d c md ! i);
             nxt = content (createChunks input d c md ! Suc i);
             prevWords = split_ws prev;
             overlapWords = drop (length prevWords - 20) prevWords
         in overlapWords \<noteq> [] \<and> length overlapWords = min 20 (length prevWords) \<and>
            split_ws (join_sp overlapWords) = overlapWords \<and>
            suffix (join_sp overlapWords) prev \<and>
            (\<exists>word\<in>set (split_ws input). prefix (join_sp overlapWords @ '' '' @ word) nxt)"
proof -
  let ?cs = "createChunks input d c md"
  let ?ws = "split_ws (content (?cs ! i))"
  let ?ov = "drop (length ?ws - 20) ?ws"
  from createChunks_structure[of input d c md] assms
  have wf: "wfb (content (?cs ! i))"
    and s: "successively (link (set (split_ws input))) (map content ?cs)" by blast+
  from successively_nth[OF s, of i] assms
  have l: "link (set (split_ws input)) (content (?cs ! i)) (content (?cs ! Suc i))" by simp
  note cw = carried_words[OF wf]
  have 1: "?ov \<noteq> []" by (rule cw(1))
  have 2: "length ?ov = min 20 (length ?ws)" by simp
  have 3: "split_ws (join_sp ?ov) = ?ov" by (rule cw(2))
  have 4: "suffix (join_sp ?ov) (content (?cs ! i))" by (rule cw(3))
  have 5: "\<exists>word\<in>set (split_ws input).
      prefix (join_sp ?ov @ '' '' @ word) (content (?cs ! Suc i))"
    using l unfolding link_def cw(4) by blast
  show ?thesis unfolding Let_def using 1 2 3 4 5 by blast
qed

text \<open>
  A text of words that fill the buffer, followed by one more word that does not fit,
  gives two chunks: the words that fill the buffer, and the last 20 of them followed by
  the last word.
\<close>

lemma length_join_sp:
  "vs \<noteq> [] \<Longrightarrow> length (join_sp vs) = sum_list (map length vs) + (length vs - 1)"
  by (induction vs rule: join_sp.induct) auto

lemma join_sp_wfb: "vs \<noteq> [] \<Longrightarrow> list_all word_ok vs \<Longrightarrow> wfb (join_sp vs)"
  unfolding wfb_def by blast

lemma chunk_loop_fill:
  "vs \<noteq> [] \<Longrightarrow> list_all word_ok vs \<Longrightarrow> length (join_sp vs) \<le> CHUNK_SIZE \<Longrightarrow>
   foldl (chunk_step d c md) ([], 0, []) vs = (join_sp vs, 0, [])"
proof (induction vs rule: rev_induct)
  case Nil
  then show ?case by simp
next
  case (snoc u us)
  show ?case
  proof (cases "us = []")
    case True
    then show ?thesis by simp
  next
    case False
    have j: "join_sp (us @ [u]) = join_sp us @ '' '' @ u" using False by (rule join_sp_snoc)
    have ok: "list_all word_ok us" using snoc.prems(2) by simp
    have ne: "join_sp us \<noteq> []" using join_sp_wfb[OF False ok] by (rule wfb_not_Nil)
    have fits: "length (join_sp us) + 1 + length u \<le> CHUNK_SIZE" using snoc.prems(3) j by simp
    then have "length (join_sp us) \<le> CHUNK_SIZE" by simp
    from snoc.IH[OF False ok this]
    have "foldl (chunk_step d c md) ([], 0, []) (us @ [u]) =
            chunk_step d c md (join_sp us, 0, []) u" by simp
    also have "\<dots> = (join_sp us @ '' '' @ u, 0, [])"
      using ne fits by (rule chunk_step_keep)
    finally show ?thesis using j by simp
  qed
qed

lemma createChunks_one_split:
  assumes vs: "vs \<noteq> []" "list_all word_ok vs" and w: "word_ok w"
    and fits: "length (join_sp vs) \<le> CHUNK_SIZE"
    and big: "length (join_sp vs) + 1 + length w > CHUNK_SIZE"
  shows "createChunks (join_sp (vs @ [w])) d c md =
           [new_chunk d c md (join_sp vs) 0,
            new_chunk d c md (join_sp (drop (length vs - 20) vs @ [w])) 1]"
    and "chunk_step d c md (join_sp vs, 0, []) w =
           (join_sp (drop (length vs - 20) vs @ [w]), 1, [new_chunk d c md (join_sp vs) 0])"
proof -
  have sp: "split_ws (join_sp (vs @ [w])) = vs @ [w]"
    using split_ws_join_sp[of "vs @ [w]"] vs w by simp
  have spv: "split_ws (join_sp vs) = vs" using split_ws_join_sp vs by simp
  have ne: "join_sp vs \<noteq> []" using join_sp_wfb[OF vs] by (rule wfb_not_Nil)
  have "length vs - 20 < length vs" using vs(1) by simp
  then have dr: "drop (length vs - 20) vs \<noteq> []" by simp
  have ov: "overlap_text (join_sp vs) = join_sp (drop (length vs - 20) vs)"
    by (simp add: overlap_text_def slice_last_overlap spv)
  have seed: "overlap_text (join_sp vs) @ '' '' @ w = join_sp (drop (length vs - 20) vs @ [w])"
    unfolding ov using join_sp_snoc[OF dr, of w] by simp
  show step: "chunk_step d c md (join_sp vs, 0, []) w =
           (join_sp (drop (length vs - 20) vs @ [w]), 1, [new_chunk d c md (join_sp vs) 0])"
    using chunk_step_split[OF ne big, of d c md 0 "[]"] seed by simp
  have loop: "chunk_loop d c md (vs @ [w]) =
      (join_sp (drop (length vs - 20) vs @ [w]), 1, [new_chunk d c md (join_sp vs) 0])"
    using chunk_loop_fill[OF vs fits, of d c md] step by (simp add: chunk_loop_def)
  have "\<exists>x\<in>set (join_sp (drop (length vs - 20) vs @ [w])). \<not> is_ws x"
    using w seed[symmetric] by (auto simp: word_ok_def ws_free_def neq_Nil_conv)
  then have "trim (join_sp (drop (length vs - 20) vs @ [w])) \<noteq> []" by (rule trim_nonempty)
  then show "createChunks (join_sp (vs @ [w])) d c md =
           [new_chunk d c md (join_sp vs) 0,
            new_chunk d c md (join_sp (drop (length vs - 20) vs @ [w])) 1]"
    by (simp add: createChunks_def sp loop)
qed

lemma ex_first_words_facts:
  "ex_first_words \<noteq> []" "list_all word_ok ex_first_words" "word_ok ex_wc"
  "length ex_first_words = 25"
  "length (join_sp ex_first_words) = 1499"
  "drop (length ex_first_words - 20) ex_first_words = replicate 20 ex_wb"
  "split_ws (join_sp ex_first_words) = ex_first_words"
proof -
  show ne: "ex_first_words \<noteq> []" by (simp add: ex_first_words_def)
  show ok: "list_all word_ok ex_first_words"
    by (simp add: ex_first_words_def ex_wa_def ex_wb_def list_all_iff word_ok_replicate is_ws_def)
  show "word_ok ex_wc" by (simp add: ex_wc_def word_ok_replicate is_ws_def)
  show "length ex_first_words = 25" by (simp add: ex_first_words_def)
  show "length (join_sp ex_first_words) = 1499"
    unfolding length_join_sp[OF ne]
    by (simp add: ex_first_words_def ex_wa_def ex_wb_def sum_list_replicate)
  show "drop (length ex_first_words - 20) ex_first_words = replicate 20 ex_wb"
    by (simp add: ex_first_words_def)
  show "split_ws (join_sp ex_first_words) = ex_first_words"
    using ne ok by (rule split_ws_join_sp)
qed

lemma ex_long_text_chunks:
  "createChunks ex_long_text d c md =
     [new_chunk d c md (join_sp ex_first_words) 0,
      new_chunk d c md (join_sp (replicate 20 ex_wb @ [ex_wc])) 1]"
  "chunk_step d c md (join_sp ex_first_words, 0, []) ex_wc =
     (join_sp (replicate 20 ex_wb @ [ex_wc]), 1, [new_chunk d c md (join_sp ex_first_words) 0])"
proof -
  have big: "length (join_sp ex_first_words) + 1 + length ex_wc > CHUNK_SIZE"
    by (simp add: ex_first_words_facts(5) ex_wc_def CHUNK_SIZE_def)
  have fits: "length (join_sp ex_first_words) \<le> CHUNK_SIZE"
    by (simp add: ex_first_words_facts(5) CHUNK_SIZE_def)
  note one = createChunks_one_split[OF ex_first_words_facts(1,2,3) fits big, of d c md,
      unfolded ex_first_words_facts(6)]
  show "createChunks ex_long_text d c md =
     [new_chunk d c md (join_sp ex_first_words) 0,
      new_chunk d c md (join_sp (replicate 20 ex_wb @ [ex_wc])) 1]"
    unfolding ex_long_text_def by (rule one(1))
  show "chunk_step d c md (join_sp ex_first_words, 0, []) ex_wc =
     (join_sp (replicate 20 ex_wb @ [ex_wc]), 1, [new_chunk d c md (join_sp ex_first_words) 0])"
    by (rule one(2))
qed

text \<open>
  Claim C9. When the next word does not fit (the buffer is not empty and buffer, space
  and word exceed \<open>CHUNK_SIZE\<close>), the step emits the buffer as a chunk and seeds the new
  buffer with the last 20 words of the emitted chunk (all of them when it has fewer), a
  space and that word. Hence in the output every chunk after the first starts with the
  last 20 words of its predecessor, joined by single spaces (at least one word, never
  more than 20, and a suffix of the predecessor), followed by a space and a word of the
  input.
\<close>

theorem createChunks_seeds_next_chunk_with_overlap:
  "(currentChunk \<noteq> [] \<and> length (currentChunk @ '' '' @ word) > CHUNK_SIZE \<longrightarrow>
      chunk_step d c md (currentChunk, chunkIndex, chunks) word =
        (join_sp (drop (length (split_ws currentChunk) - 20) (split_ws currentChunk)) @ '' '' @ word,
         chunkIndex + 1,
         chunks @ [new_chunk d c md currentChunk chunkIndex])) \<and>
   (Suc i < length (createChunks input d c md) \<longrightarrow>
      (let prev = content (createChunks input d c md ! i);
           nxt = content (createChunks input d c md ! Suc i);
           prevWords = split_ws prev;
           overlapWords = drop (length prevWords - 20) prevWords
       in overlapWords \<noteq> [] \<and> length overlapWords = min 20 (length prevWords) \<and>
          split_ws (join_sp overlapWords) = overlapWords \<and>
          suffix (join_sp overlapWords) prev \<and>
          (\<exists>word\<in>set (split_ws input). prefix (join_sp overlapWords @ '' '' @ word) nxt)))"
proof (intro conjI impI)
  assume "currentChunk \<noteq> [] \<and> length (currentChunk @ '' '' @ word) > CHUNK_SIZE"
  then show "chunk_step d c md (currentChunk, chunkIndex, chunks) word =
        (join_sp (drop (length (split_ws currentChunk) - 20) (split_ws currentChunk)) @ '' '' @ word,
         chunkIndex + 1,
         chunks @ [new_chunk d c md currentChunk chunkIndex])"
    using chunk_step_split[of currentChunk word d c md chunkIndex chunks]
    by (simp add: overlap_text_def slice_last_overlap)
next
  assume "Suc i < length (createChunks input d c md)"
  then show "let prev = content (createChunks input d c md ! i);
           nxt = content (createChunks input d c md ! Suc i);
           prevWords = split_ws prev;
           overlapWords = drop (length prevWords - 20) prevWords
       in overlapWords \<noteq> [] \<and> length overlapWords = min 20 (length prevWords) \<and>
          split_ws (join_sp overlapWords) = overlapWords \<and>
          suffix (join_sp overlapWords) prev \<and>
          (\<exists>word\<in>set (split_ws input). prefix (join_sp overlapWords @ '' '' @ word) nxt)"
    by (rule createChunks_carries_last_words)
qed

text \<open>
  Witness for C9: the buffer holds 25 words of 59 characters (1499 characters: five words
  of a's, then twenty words of b's) and the next word, of c's, does not fit. The step
  emits the 25 words and seeds the new buffer with the twenty words of b's, a space and
  the word of c's: the five words of a's are not carried over. The text of these 26
  words gives two chunks, of 1499 and 1259 characters.
\<close>

theorem createChunks_seeds_next_chunk_witness:
  "join_sp ex_first_words \<noteq> [] \<and>
   length (join_sp ex_first_words @ '' '' @ ex_wc) > CHUNK_SIZE \<and>
   length (split_ws (join_sp ex_first_words)) = 25 \<and>
   chunk_step 1 1 ex_md (join_sp ex_first_words, 0, []) ex_wc =
     (join_sp (replicate 20 ex_wb) @ '' '' @ ex_wc, 1,
      [new_chunk 1 1 ex_md (join_sp ex_first_words) 0]) \<and>
   Suc 0 < length (createChunks ex_long_text 1 1 ex_md) \<and>
   map content (createChunks ex_long_text 1 1 ex_md) =
     [join_sp ex_first_words, join_sp (replicate 20 ex_wb) @ '' '' @ ex_wc] \<and>
   map content_length (createChunks ex_long_text 1 1 ex_md) = [1499, 1259] \<and>
   suffix (join_sp (replicate 20 ex_wb)) (join_sp ex_first_words)"
proof -
  note f = ex_first_words_facts
  note t = createChunks_seeds_next_chunk_with_overlap
             [of "join_sp ex_first_words" ex_wc 1 1 ex_md 0 "[]" 0 ex_long_text]
  have j: "join_sp (replicate 20 ex_wb @ [ex_wc]) = join_sp (replicate 20 ex_wb) @ '' '' @ ex_wc"
    by (rule join_sp_snoc) simp
  have l: "length (join_sp (replicate 20 ex_wb)) = 1199"
    by (subst length_join_sp) (simp_all add: ex_wb_def sum_list_replicate)
  have cs: "createChunks ex_long_text 1 1 ex_md =
     [new_chunk 1 1 ex_md (join_sp ex_first_words) 0,
      new_chunk 1 1 ex_md (join_sp (replicate 20 ex_wb) @ '' '' @ ex_wc) 1]"
    using ex_long_text_chunks(1)[of 1 1 ex_md] unfolding j .
  have ne: "join_sp ex_first_words \<noteq> []"
    using join_sp_wfb[OF f(1,2)] by (rule wfb_not_Nil)
  have big: "length (join_sp ex_first_words @ '' '' @ ex_wc) > CHUNK_SIZE"
    by (simp add: f(5) ex_wc_def CHUNK_SIZE_def)
  have n: "length (split_ws (join_sp ex_first_words)) = 25" unfolding f(7) by (rule f(4))
  from t ne big
  have "chunk_step 1 1 ex_md (join_sp ex_first_words, 0, []) ex_wc =
     (join_sp (drop (length (split_ws (join_sp ex_first_words)) - 20)
                 (split_ws (join_sp ex_first_words))) @ '' '' @ ex_wc,
      0 + 1, [] @ [new_chunk 1 1 ex_md (join_sp ex_first_words) 0])"
    by blast
  then have step: "chunk_step 1 1 ex_md (join_sp ex_first_words, 0, []) ex_wc =
     (join_sp (replicate 20 ex_wb) @ '' '' @ ex_wc, 1,
      [new_chunk 1 1 ex_md (join_sp ex_first_words) 0])"
    unfolding f(7) f(6) by simp
  have len: "Suc 0 < length (createChunks ex_long_text 1 1 ex_md)" unfolding cs by simp
  have c0: "content (createChunks ex_long_text 1 1 ex_md ! 0) = join_sp ex_first_words"
    unfolding cs by simp
  from t len
  have "let prev = content (createChunks ex_long_text 1 1 ex_md ! 0);
            nxt = content (createChunks ex_long_text 1 1 ex_md ! Suc 0);
            prevWords = split_ws prev;
            overlapWords = drop (length prevWords - 20) prevWords
        in overlapWords \<noteq> [] \<and> length overlapWords = min 20 (length prevWords) \<and>
           split_ws (join_sp overlapWords) = overlapWords \<and>
           suffix (join_sp overlapWords) prev \<and>
           (\<exists>word\<in>set (split_ws ex_long_text). prefix (join_sp overlapWords @ '' '' @ word) nxt)"
    by blast
  then have "suffix (join_sp (drop (length (split_ws (join_sp ex_first_words)) - 20)
                                (split_ws (join_sp ex_first_words))))
                    (join_sp ex_first_words)"
    unfolding Let_def c0 by blast
  then have suf: "suffix (join_sp (replicate 20 ex_wb)) (join_sp ex_first_words)"
    unfolding f(7) f(6) .
  have m1: "map content (createChunks ex_long_text 1 1 ex_md) =
     [join_sp ex_first_words, join_sp (replicate 20 ex_wb) @ '' '' @ ex_wc]"
    unfolding cs by simp
  have m2: "map content_length (createChunks ex_long_text 1 1 ex_md) = [1499, 1259]"
    unfolding cs by (simp add: new_chunk_def f(5) l ex_wc_def)
  from ne big n step len m1 m2 suf show ?thesis by blast
qed

text \<open>
  Witness for C4: a text of two short words gives one chunk, with index 0 and within
  \<open>CHUNK_SIZE\<close>; the text of two words of 750 characters gives two chunks with indices 0
  and 1, the first a single word of the text and the second exactly the seed of the
  split.
\<close>

theorem createChunks_count_indices_and_lengths_witness:
  "(\<exists>x\<in>set ''rate case''. \<not> is_ws x) \<and>
   map content (createChunks ''rate case'' 1 1 ex_md) = [''rate case''] \<and>
   map chunk_index (createChunks ''rate case'' 1 1 ex_md) = [0] \<and>
   (\<exists>x\<in>set ex_two_words. \<not> is_ws x) \<and>
   map chunk_index (createChunks ex_two_words 1 1 ex_md) = [0, 1] \<and>
   Suc 0 < length (createChunks ex_two_words 1 1 ex_md) \<and>
   content (hd (createChunks ex_two_words 1 1 ex_md)) \<in> set (split_ws ex_two_words) \<and>
   content (createChunks ex_two_words 1 1 ex_md ! Suc 0) =
     join_sp (slice_last (CHUNK_OVERLAP div 10)
                (split_ws (content (createChunks ex_two_words 1 1 ex_md ! 0)))) @ '' '' @
       replicate 750 CHR ''b''"
proof -
  have short: "(\<exists>x\<in>set ''rate case''. \<not> is_ws x) \<and>
      map content (createChunks ''rate case'' 1 1 ex_md) = [''rate case''] \<and>
      map chunk_index (createChunks ''rate case'' 1 1 ex_md) = [0]"
    using createChunks_count_indices_and_lengths[of "''rate case''" 1 1 ex_md]
    by (simp add: createChunks_def chunk_loop_def is_ws_def trim_def chunk_step_def
        new_chunk_def CHUNK_SIZE_def)
  have long: "(\<exists>x\<in>set ex_two_words. \<not> is_ws x) \<and>
      map chunk_index (createChunks ex_two_words 1 1 ex_md) = [0, 1] \<and>
      Suc 0 < length (createChunks ex_two_words 1 1 ex_md) \<and>
      content (hd (createChunks ex_two_words 1 1 ex_md)) \<in> set (split_ws ex_two_words) \<and>
      content (createChunks ex_two_words 1 1 ex_md ! Suc 0) =
        join_sp (slice_last (CHUNK_OVERLAP div 10)
                   (split_ws (content (createChunks ex_two_words 1 1 ex_md ! 0)))) @ '' '' @
          replicate 750 CHR ''b''"
    using createChunks_count_indices_and_lengths[of ex_two_words 1 1 ex_md]
          split_ws_word [of "replicate 750 CHR ''a''"]
    by (simp add: ex_two_words_chunks new_chunk_def word_ok_replicate is_ws_def
        CHUNK_OVERLAP_def slice_last_def)
       (simp add: ex_two_words_def is_ws_def)
  from short long show ?thesis
    by - (elim conjE, intro conjI, assumption+)
qed

subsection \<open>The uploader\<close>

lemma ensureCaseExists_run:
  "(ensure_step info ^^ 7) (EC_called, cache, st) =
     (case ensureCaseExists info (cache, st) of (r, cache', st') \<Rightarrow> (pc_of r, cache', st'))"
  by (auto simp: ensureCaseExists_def pc_of_def numeral_eq_Suc split: option.splits sum.splits prod.splits)

lemma filter_unique:
  "distinct (map f xs) \<Longrightarrow> r \<in> set xs \<Longrightarrow> filter (\<lambda>x. f x = f r) xs = [r]"
proof (induction xs)
  case Nil
  then show ?case by simp
next
  case (Cons x xs)
  show ?case
  proof (cases "x = r")
    case True
    have "filter (\<lambda>y. f y = f r) xs = []"
      using Cons.prems(1) True by (auto simp: filter_empty_conv image_iff)
    then show ?thesis using True by simp
  next
    case False
    then have "r \<in> set xs" using Cons.prems(2) by simp
    moreover have "f x \<noteq> f r" using Cons.prems(1) \<open>r \<in> set xs\<close> by (auto simp: image_iff)
    ultimately show ?thesis using Cons by simp
  qed
qed

lemma select_case_found:
  "cases_unique st \<Longrightarrow> r \<in> set (cases st) \<Longrightarrow> case_number r = cn \<Longrightarrow>
   select_case_by_number cn st = Some r"
  using filter_unique[of case_number "cases st" r]
  by (auto simp: select_case_by_number_def single_def cases_unique_def)

lemma single_Some: "single xs = Some r \<Longrightarrow> xs = [r]"
  by (auto simp: single_def split: list.splits)

lemma select_case_Some:
  "select_case_by_number cn st = Some r \<Longrightarrow> r \<in> set (cases st) \<and> case_number r = cn"
proof -
  assume "select_case_by_number cn st = Some r"
  then have "filter (\<lambda>r. case_number r = cn) (cases st) = [r]"
    by (simp add: select_case_by_number_def single_Some)
  then have "r \<in> set (filter (\<lambda>r. case_number r = cn) (cases st))" by simp
  then show ?thesis by simp
qed

lemma select_case_None:
  "cases_unique st \<Longrightarrow> select_case_by_number cn st = None \<Longrightarrow>
   \<not> (\<exists>r\<in>set (cases st). case_number r = cn)"
  using select_case_found by fastforce

lemma insert_case_Inl:
  "insert_case info st = Inl e \<Longrightarrow>
   is_duplicate_error e \<and> (\<exists>r\<in>set (cases st). case_number r = caseNumber info)"
  by (auto simp: insert_case_def is_duplicate_error_def unique_violation_def Let_def split: if_splits)

lemma insert_case_Inr:
  "insert_case info st = Inr (row, st') \<Longrightarrow>
   cases st' = cases st @ [row] \<and> case_number row = caseNumber info \<and>
   \<not> (\<exists>r\<in>set (cases st). case_number r = caseNumber info) \<and>
   documents st' = documents st \<and> document_chunks st' = document_chunks st"
  by (auto simp: insert_case_def Let_def split: if_splits)

lemma has_case_mono: "set (cases st) \<subseteq> set (cases st') \<Longrightarrow> has_case cn i st \<Longrightarrow> has_case cn i st'"
  by (auto simp: has_case_def)

lemma pc_ok_mono: "set (cases st) \<subseteq> set (cases st') \<Longrightarrow> pc_ok cn st pc \<Longrightarrow> pc_ok cn st' pc"
  by (induction cn st pc rule: pc_ok.induct) (auto intro: has_case_mono)

lemma cache_ok_mono: "set (cases st) \<subseteq> set (cases st') \<Longrightarrow> cache_ok cn cache st \<Longrightarrow> cache_ok cn cache st'"
  by (auto simp: cache_ok_def intro: has_case_mono split: option.splits)

lemma ensure_step_inv:
  assumes cn: "caseNumber info = cn"
    and u: "cases_unique st" and c: "cache_ok cn cache st" and p: "pc_ok cn st pc"
    and step: "ensure_step info (pc, cache, st) = (pc', cache', st')"
  shows "cases_unique st' \<and> cache_ok cn cache' st' \<and> pc_ok cn st' pc' \<and>
         set (cases st) \<subseteq> set (cases st') \<and> documents st' = documents st \<and>
         document_chunks st' = document_chunks st"
proof (cases pc)
  case EC_called
  then show ?thesis using step cn u c p
    by (auto simp: cache_ok_def split: option.splits)
next
  case EC_select_sent
  then show ?thesis using step cn u c p
    by (cases "select_case_by_number cn st") (auto dest: select_case_Some)
next
  case (EC_select_back r)
  then show ?thesis using step cn u c p
    by (cases r) (auto simp: cache_ok_def has_case_def)
next
  case EC_insert_sent
  show ?thesis
  proof (cases "insert_case info st")
    case (Inl e)
    then show ?thesis using step cn u c p EC_insert_sent insert_case_Inl[OF Inl] by auto
  next
    case (Inr q)
    obtain row st1 where q: "q = (row, st1)" by (cases q)
    from insert_case_Inr[OF Inr[unfolded q]]
    have i: "cases st1 = cases st @ [row]" "case_number row = caseNumber info"
      "\<not> (\<exists>r\<in>set (cases st). case_number r = caseNumber info)"
      "documents st1 = documents st" "document_chunks st1 = document_chunks st" by auto
    have "cases_unique st1" using u i by (auto simp: cases_unique_def)
    moreover have "set (cases st) \<subseteq> set (cases st1)" using i by auto
    ultimately show ?thesis using step cn c EC_insert_sent Inr q i
      by (auto intro: cache_ok_mono)
  qed
next
  case (EC_insert_back res)
  then show ?thesis using step cn u c p
    by (cases res) (auto simp: cache_ok_def has_case_def)
next
  case (EC_reselect_sent e)
  then obtain r where r: "r \<in> set (cases st)" "case_number r = cn" using p by auto
  then have "select_case_by_number cn st = Some r" using u select_case_found by blast
  then show ?thesis using step cn u c r EC_reselect_sent by auto
next
  case (EC_reselect_back e r)
  then show ?thesis using step cn u c p
    by (cases r) (auto simp: cache_ok_def has_case_def)
next
  case (EC_returned i)
  then show ?thesis using step u c p by auto
next
  case (EC_thrown err)
  then show ?thesis using p by simp
qed

lemma ensure_step_rank: "rank (fst (ensure_step info (pc, cache, st))) \<le> rank pc - 1"
  by (cases pc) (auto split: option.splits sum.splits prod.splits)

lemma race_step_inv:
  assumes "caseNumber infoA = cn" "caseNumber infoB = cn" "race_inv cn s"
  shows "race_inv cn (race_step infoA infoB s w)"
proof -
  obtain a b cache st where s: "s = (a, b, cache, st)" by (cases s) auto
  from assms(3) s have inv: "cases_unique st" "cache_ok cn cache st" "pc_ok cn st a" "pc_ok cn st b"
    by (auto simp: race_inv_def)
  show ?thesis
  proof (cases w)
    case True
    obtain a' cache' st' where e: "ensure_step infoA (a, cache, st) = (a', cache', st')"
      by (cases "ensure_step infoA (a, cache, st)") auto
    from ensure_step_inv[OF assms(1) inv(1,2,3) e] inv(4)
    show ?thesis using s True e by (auto simp: race_inv_def intro: pc_ok_mono)
  next
    case False
    obtain b' cache' st' where e: "ensure_step infoB (b, cache, st) = (b', cache', st')"
      by (cases "ensure_step infoB (b, cache, st)") auto
    from ensure_step_inv[OF assms(2) inv(1,2,4) e] inv(3)
    show ?thesis using s False e by (auto simp: race_inv_def intro: pc_ok_mono)
  qed
qed

lemma race_inv_foldl:
  assumes "caseNumber infoA = cn" "caseNumber infoB = cn"
  shows "race_inv cn s \<Longrightarrow> race_inv cn (foldl (race_step infoA infoB) s schedule)"
proof (induction schedule arbitrary: s)
  case Nil
  then show ?case by simp
next
  case (Cons w ws)
  have "race_inv cn (race_step infoA infoB s w)" by (rule race_step_inv[OF assms Cons.prems])
  then show ?case using Cons.IH by (simp del: race_step.simps)
qed

lemma race_rank_foldl:
  "rank (fst (foldl (race_step infoA infoB) s schedule)) \<le> rank (fst s) - length (filter (\<lambda>w. w) schedule) \<and>
   rank (fst (snd (foldl (race_step infoA infoB) s schedule))) \<le> rank (fst (snd s)) - length (filter Not schedule)"
proof (induction schedule arbitrary: s)
  case Nil
  then show ?case by simp
next
  case (Cons w ws)
  obtain a b cache st where s: "s = (a, b, cache, st)" by (cases s) auto
  let ?s' = "race_step infoA infoB s w"
  let ?f = "foldl (race_step infoA infoB) ?s' ws"
  have step: "rank (fst ?s') \<le> rank a - (if w then 1 else 0) \<and>
        rank (fst (snd ?s')) \<le> rank b - (if w then 0 else 1)"
    using ensure_step_rank[of infoA a cache st] ensure_step_rank[of infoB b cache st]
    by (auto simp: s split: prod.splits)
  have ih: "rank (fst ?f) \<le> rank (fst ?s') - length (filter (\<lambda>w. w) ws)"
    "rank (fst (snd ?f)) \<le> rank (fst (snd ?s')) - length (filter Not ws)"
    using Cons.IH[of ?s'] by blast+
  have eq: "foldl (race_step infoA infoB) s (w # ws) = ?f" by simp
  show ?case
  proof (cases w)
    case True
    then have "rank (fst ?s') \<le> rank a - 1" "rank (fst (snd ?s')) \<le> rank b" using step by simp_all
    with ih have "rank (fst ?f) \<le> rank a - Suc (length (filter (\<lambda>w. w) ws))"
      "rank (fst (snd ?f)) \<le> rank b - length (filter Not ws)" by linarith+
    then show ?thesis unfolding eq using True s by simp
  next
    case False
    then have "rank (fst ?s') \<le> rank a" "rank (fst (snd ?s')) \<le> rank b - 1" using step by simp_all
    with ih have "rank (fst ?f) \<le> rank a - length (filter (\<lambda>w. w) ws)"
      "rank (fst (snd ?f)) \<le> rank b - Suc (length (filter Not ws))" by linarith+
    then show ?thesis unfolding eq using False s by simp
  qed
qed

lemma rank_0: "rank pc = 0 \<Longrightarrow> pc_ok cn st pc \<Longrightarrow> \<exists>i. pc = EC_returned i \<and> has_case cn i st"
  by (cases pc) auto

lemma race_both_return_same_id:
  assumes cn: "caseNumber infoA = cn" "caseNumber infoB = cn"
    and u: "cases_unique st" and c: "cache_ok cn cache st"
    and fair: "length (filter (\<lambda>w. w) schedule) \<ge> 7" "length (filter Not schedule) \<ge> 7"
  shows "\<exists>i r cache' st'. race_run infoA infoB schedule (cache, st) =
           (EC_returned i, EC_returned i, cache', st') \<and>
         filter (\<lambda>r. case_number r = cn) (cases st') = [r] \<and> case_id r = i"
proof -
  let ?s0 = "(EC_called, EC_called, cache, st)"
  let ?f = "foldl (race_step infoA infoB) ?s0 schedule"
  obtain a b cache' st' where f: "?f = (a, b, cache', st')" by (cases ?f) auto
  have "race_inv cn ?s0" using u c by (simp add: race_inv_def)
  from race_inv_foldl[OF cn this, of schedule] f
  have inv: "cases_unique st'" "pc_ok cn st' a" "pc_ok cn st' b" by (auto simp: race_inv_def)
  from race_rank_foldl[of infoA infoB ?s0 schedule] f fair
  have "rank a = 0" "rank b = 0" by auto
  with inv obtain i j where ab: "a = EC_returned i" "b = EC_returned j"
    "has_case cn i st'" "has_case cn j st'" using rank_0 by blast
  then obtain r q where r: "r \<in> set (cases st')" "case_number r = cn" "case_id r = i"
    and q: "q \<in> set (cases st')" "case_number q = cn" "case_id q = j"
    by (auto simp: has_case_def)
  have fr: "filter (\<lambda>x. case_number x = cn) (cases st') = [r]"
    using filter_unique[of case_number "cases st'" r] inv(1) r by (simp add: cases_unique_def)
  have "filter (\<lambda>x. case_number x = cn) (cases st') = [q]"
    using filter_unique[of case_number "cases st'" q] inv(1) q by (simp add: cases_unique_def)
  with fr have "q = r" by simp
  then have "j = i" using r q by simp
  then show ?thesis using f ab fr r by (auto simp: race_run_def)
qed

text \<open>
  Claim C1. When the insert of a case comes back with a uniqueness violation (code 23505,
  or a message containing "duplicate key") and the lookup that follows finds a row, the
  call returns that row's id and caches it; it does not throw. Hence, for a store whose
  case numbers are unique (and a cache that agrees with the store), two calls for the
  same case number, interleaved in any order at their suspension points and each run to
  its end, return the same id, and the store then holds exactly one row with that case
  number.
\<close>

theorem ensureCaseExists_race_resolved:
  "((code error = ''23505'' \<or> str_includes (message error) ''duplicate key'') \<and>
    select_case_by_number (caseNumber info) st = Some raceCase \<longrightarrow>
      (ensure_step info ^^ 3) (EC_insert_back (Inl error), cache, st) =
        (EC_returned (case_id raceCase), cache(caseNumber info \<mapsto> case_id raceCase), st)) \<and>
   (caseNumber infoA = cn \<and> caseNumber infoB = cn \<and>
    cases_unique st0 \<and> cache_ok cn cache0 st0 \<and>
    7 \<le> length (filter (\<lambda>w. w) schedule) \<and> 7 \<le> length (filter Not schedule) \<longrightarrow>
      (\<exists>i r cache' st'.
         race_run infoA infoB schedule (cache0, st0) =
           (EC_returned i, EC_returned i, cache', st') \<and>
         filter (\<lambda>r. case_number r = cn) (cases st') = [r] \<and> case_id r = i))"
proof (intro conjI impI)
  assume "(code error = ''23505'' \<or> str_includes (message error) ''duplicate key'') \<and>
    select_case_by_number (caseNumber info) st = Some raceCase"
  then show "(ensure_step info ^^ 3) (EC_insert_back (Inl error), cache, st) =
        (EC_returned (case_id raceCase), cache(caseNumber info \<mapsto> case_id raceCase), st)"
    by (simp add: numeral_eq_Suc is_duplicate_error_def)
next
  assume "caseNumber infoA = cn \<and> caseNumber infoB = cn \<and>
    cases_unique st0 \<and> cache_ok cn cache0 st0 \<and>
    7 \<le> length (filter (\<lambda>w. w) schedule) \<and> 7 \<le> length (filter Not schedule)"
  then show "\<exists>i r cache' st'.
         race_run infoA infoB schedule (cache0, st0) =
           (EC_returned i, EC_returned i, cache', st') \<and>
         filter (\<lambda>r. case_number r = cn) (cases st') = [r] \<and> case_id r = i"
    using race_both_return_same_id[of infoA cn infoB st0 cache0 schedule] by blast
qed

text \<open>
  Witness for C1: a duplicate-key error answered by a lookup that finds the row; and two
  calls for the same new case on an empty store, taking turns step by step. Both find no
  row, A's insert succeeds, B's insert fails with the uniqueness violation, B looks the
  case up again, and both return id 1; the store holds one row.
\<close>

theorem ensureCaseExists_race_resolved_witness:
  "code (unique_violation ''unique_case_number'') = ''23505'' \<and>
   select_case_by_number (caseNumber ex_case) (empty_store\<lparr>cases := [ex_case_row]\<rparr>) = Some ex_case_row \<and>
   fst ((ensure_step ex_case ^^ 3)
          (EC_insert_back (Inl (unique_violation ''unique_case_number'')), Map.empty,
           empty_store\<lparr>cases := [ex_case_row]\<rparr>)) = EC_returned 1 \<and>
   cases_unique empty_store \<and> cache_ok ''IPC-E-24-01'' Map.empty empty_store \<and>
   length (filter (\<lambda>w. w) ex_schedule) = 7 \<and> length (filter Not ex_schedule) = 7 \<and>
   fst (race_run ex_case ex_case ex_schedule (Map.empty, empty_store)) = EC_returned 1 \<and>
   fst (snd (race_run ex_case ex_case ex_schedule (Map.empty, empty_store))) = EC_returned 1 \<and>
   cases (snd (snd (snd (race_run ex_case ex_case ex_schedule (Map.empty, empty_store))))) =
     [ex_case_row]"
  using ensureCaseExists_race_resolved
          [of "unique_violation ''unique_case_number''" ex_case
              "empty_store\<lparr>cases := [ex_case_row]\<rparr>" ex_case_row Map.empty
              ex_case "''IPC-E-24-01''" ex_case empty_store Map.empty ex_schedule]
  by (simp add: unique_violation_def select_case_by_number_def single_def ex_case_def
      ex_case_row_def empty_store_def cases_unique_def cache_ok_def ex_schedule_def
      race_run_def insert_case_def is_duplicate_error_def numeral_eq_Suc Let_def)

lemma ensureCaseExists_succeeds:
  assumes "cases_unique st"
  shows "\<exists>i cache' st'. ensureCaseExists info (cache, st) = (Inr i, cache', st') \<and>
           cases_unique st' \<and> documents st' = documents st \<and>
           document_chunks st' = document_chunks st"
proof (cases "cache (caseNumber info)")
  case (Some i)
  then show ?thesis using assms by (simp add: ensureCaseExists_def)
next
  case None
  note miss = None
  show ?thesis
  proof (cases "select_case_by_number (caseNumber info) st")
    case (Some r)
    then show ?thesis using assms miss by (simp add: ensureCaseExists_def)
  next
    case None
    from select_case_None[OF assms None]
    have no: "\<not> (\<exists>r\<in>set (cases st). case_number r = caseNumber info)" .
    then obtain row st' where ins: "insert_case info st = Inr (row, st')"
      by (auto simp: insert_case_def Let_def)
    from insert_case_Inr[OF ins] have i: "cases st' = cases st @ [row]"
      "case_number row = caseNumber info" "documents st' = documents st"
      "document_chunks st' = document_chunks st" by auto
    have "cases_unique st'" using assms i no by (auto simp: cases_unique_def)
    then show ?thesis using miss None ins i by (simp add: ensureCaseExists_def)
  qed
qed

lemma upload_batches_result:
  "upload_batches chunks st = (e, st') \<Longrightarrow>
   e = None \<and> documents st' = documents st \<and> cases st' = cases st"
proof (induction chunks st arbitrary: e st' rule: upload_batches.induct)
  case (1 chunks st)
  show ?case
  proof (cases "chunks = []")
    case True
    then show ?thesis using 1(2) by simp
  next
    case False
    let ?st1 = "st\<lparr>document_chunks := document_chunks st @ take 100 chunks\<rparr>"
    have ins: "insert_chunks (take 100 chunks) st = (None, ?st1)" by (simp add: insert_chunks_def)
    from 1(2) False ins have "upload_batches (drop 100 chunks) ?st1 = (e, st')"
      by (simp del: upload_batches.simps add: upload_batches.simps[of chunks st])
    from 1(1)[OF False ins[symmetric] refl this] show ?thesis by simp
  qed
qed

lemma upload_batches_small:
  "length chunks \<le> 100 \<Longrightarrow>
   upload_batches chunks st =
     (None, if chunks = [] then st else st\<lparr>document_chunks := document_chunks st @ chunks\<rparr>)"
  by (simp add: insert_chunks_def)

text \<open>The URL has exactly one row: the call reports a duplicate and inserts nothing.\<close>

lemma uploadDocument_existing:
  assumes u: "cases_unique st" and one: "url_rows (dd_documentUrl dd) st = [d]"
  shows "\<exists>r cache' st'. uploadDocument dd (cache, st) = (r, cache', st') \<and>
           up_success r \<and> up_duplicate r \<and> up_chunksCreated r = Some 0 \<and>
           documents st' = documents st \<and> document_chunks st' = document_chunks st \<and>
           cases_unique st'"
proof -
  from ensureCaseExists_succeeds[OF u, of "dd_caseInfo dd" cache]
  obtain i cache1 st1 where e: "ensureCaseExists (dd_caseInfo dd) (cache, st) = (Inr i, cache1, st1)"
    "cases_unique st1" "documents st1 = documents st" "document_chunks st1 = document_chunks st"
    by blast
  have "select_document_by_url (dd_documentUrl dd) st1 = Some d"
    using one e(3) by (simp add: select_document_by_url_def url_rows_def single_def)
  then show ?thesis using e by (simp add: uploadDocument_def)
qed

text \<open>
  The URL has no row: the call inserts the document when the name is free in the case,
  and fails on the unique index (leaving documents and chunks as they were) when it is
  not.
\<close>

lemma uploadDocument_fresh:
  assumes u: "cases_unique st" and none: "url_rows (dd_documentUrl dd) st = []"
  shows "name_free dd (cache, st) \<Longrightarrow>
           \<exists>r cache' st' doc. uploadDocument dd (cache, st) = (r, cache', st') \<and>
             up_success r \<and> \<not> up_duplicate r \<and> documents st' = documents st @ [doc] \<and>
             document_url doc = dd_documentUrl dd \<and> cases_unique st'"
    and "\<not> name_free dd (cache, st) \<Longrightarrow>
           \<exists>r cache' st'. uploadDocument dd (cache, st) = (r, cache', st') \<and>
             \<not> up_success r \<and> \<not> up_duplicate r \<and> documents st' = documents st \<and>
             document_chunks st' = document_chunks st"
proof -
  from ensureCaseExists_succeeds[OF u, of "dd_caseInfo dd" cache]
  obtain i cache1 st1 where e: "ensureCaseExists (dd_caseInfo dd) (cache, st) = (Inr i, cache1, st1)"
    "cases_unique st1" "documents st1 = documents st" "document_chunks st1 = document_chunks st"
    by blast
  have sel: "select_document_by_url (dd_documentUrl dd) st1 = None"
    using none e(3) by (simp add: select_document_by_url_def url_rows_def single_def)
  have nf: "name_free dd (cache, st) =
      (\<not> (\<exists>d\<in>set (documents st1). doc_case_id d = i \<and> document_name d = dd_documentName dd))"
    by (simp add: name_free_def e(1))
  {
    assume "name_free dd (cache, st)"
    then have free: "\<not> (\<exists>d\<in>set (documents st1). doc_case_id d = i \<and>
                                                   document_name d = dd_documentName dd)"
      using nf by simp
    then obtain doc st2 where ins: "insert_document i dd st1 = Inr (doc, st2)"
      by (auto simp: insert_document_def Let_def)
    then have st2: "documents st2 = documents st1 @ [doc]" "cases st2 = cases st1"
      "document_url doc = dd_documentUrl dd"
      using free by (auto simp: insert_document_def Let_def)
    let ?chunks = "createChunks (dd_extractedText dd) (doc_id doc) i
                     \<lparr>md_caseNumber = caseNumber (dd_caseInfo dd),
                      md_company = company (dd_caseInfo dd),
                      md_witnessName = dd_witnessName dd,
                      md_documentType = dd_documentType dd\<rparr>"
    obtain ce st3 where b: "upload_batches ?chunks st2 = (ce, st3)"
      by (cases "upload_batches ?chunks st2") auto
    from upload_batches_result[OF b] have st3: "ce = None" "documents st3 = documents st2"
      "cases st3 = cases st2" by auto
    have up: "uploadDocument dd (cache, st) =
        (\<lparr>up_success = True, up_documentId = Some (doc_id doc), up_caseId = Some i,
          up_chunksCreated = Some (length ?chunks), up_duplicate = False, up_skipped = False,
          up_error = None\<rparr>, cache1, st3)"
      using e(1) sel ins b st3(1) by (simp add: uploadDocument_def Let_def)
    have "cases_unique st3" using e(2) st2 st3 by (simp add: cases_unique_def)
    then show "\<exists>r cache' st' doc. uploadDocument dd (cache, st) = (r, cache', st') \<and>
             up_success r \<and> \<not> up_duplicate r \<and> documents st' = documents st @ [doc] \<and>
             document_url doc = dd_documentUrl dd \<and> cases_unique st'"
      using up st2 st3 e(3) by simp
  }
  {
    assume "\<not> name_free dd (cache, st)"
    then have "\<exists>d\<in>set (documents st1). doc_case_id d = i \<and> document_name d = dd_documentName dd"
      using nf by simp
    then have "insert_document i dd st1 = Inl (unique_violation ''unique_document_per_case'')"
      by (simp add: insert_document_def)
    then show "\<exists>r cache' st'. uploadDocument dd (cache, st) = (r, cache', st') \<and>
             \<not> up_success r \<and> \<not> up_duplicate r \<and> documents st' = documents st \<and>
             document_chunks st' = document_chunks st"
      using e sel by (simp add: uploadDocument_def upload_failed_def)
  }
qed

text \<open>
  Counterexample to claim C2. First, a payload with a new URL whose name the case
  already holds: the first call fails on the unique index (case_id, document_name), the
  second call fails in the same way and does not report a duplicate, and no row has the
  URL. Second, a payload whose URL already has two rows: \<^verbatim>\<open>.single()\<close> yields no row, and
  the call inserts a third row and a chunk and does not report a duplicate.
\<close>

theorem uploadDocument_two_calls_no_row_and_duplicate_missed:
  "url_rows (dd_documentUrl ex_clash_upload) ex_store = [] \<and>
   up_success (fst (uploadDocument ex_clash_upload (Map.empty, ex_store))) = False \<and>
   up_success (fst (uploadDocument ex_clash_upload
                      (snd (uploadDocument ex_clash_upload (Map.empty, ex_store))))) = False \<and>
   up_duplicate (fst (uploadDocument ex_clash_upload
                        (snd (uploadDocument ex_clash_upload (Map.empty, ex_store))))) = False \<and>
   url_rows (dd_documentUrl ex_clash_upload)
     (snd (snd (uploadDocument ex_clash_upload
                  (snd (uploadDocument ex_clash_upload (Map.empty, ex_store)))))) = [] \<and>
   length (url_rows (dd_documentUrl ex_third_upload) ex_twin_store) = 2 \<and>
   up_success (fst (uploadDocument ex_third_upload (Map.empty, ex_twin_store))) = True \<and>
   up_duplicate (fst (uploadDocument ex_third_upload (Map.empty, ex_twin_store))) = False \<and>
   up_chunksCreated (fst (uploadDocument ex_third_upload (Map.empty, ex_twin_store))) = Some 1 \<and>
   length (url_rows (dd_documentUrl ex_third_upload)
             (snd (snd (uploadDocument ex_third_upload (Map.empty, ex_twin_store))))) = 3"
proof -
  have clash: "uploadDocument ex_clash_upload (Map.empty, ex_store) =
      (upload_failed (''Failed to create document: '' @
                      message (unique_violation ''unique_document_per_case'')),
       Map.empty(''IPC-E-24-01'' \<mapsto> 1), ex_store)"
    by (simp add: uploadDocument_def ensureCaseExists_def select_case_by_number_def
        select_document_by_url_def single_def insert_document_def ex_store_def
        ex_document_row_def ex_case_row_def empty_store_def ex_clash_upload_def ex_upload_def
        ex_case_def)
  have again: "uploadDocument ex_clash_upload (Map.empty(''IPC-E-24-01'' \<mapsto> 1), ex_store) =
      (upload_failed (''Failed to create document: '' @
                      message (unique_violation ''unique_document_per_case'')),
       Map.empty(''IPC-E-24-01'' \<mapsto> 1), ex_store)"
    by (simp add: uploadDocument_def ensureCaseExists_def select_case_by_number_def
        select_document_by_url_def single_def insert_document_def ex_store_def
        ex_document_row_def ex_case_row_def empty_store_def ex_clash_upload_def ex_upload_def
        ex_case_def)
  have none: "url_rows (dd_documentUrl ex_clash_upload) ex_store = []"
    by (simp add: url_rows_def ex_store_def ex_document_row_def empty_store_def
        ex_clash_upload_def ex_upload_def)
  have two: "length (url_rows (dd_documentUrl ex_third_upload) ex_twin_store) = 2"
    by (simp add: url_rows_def ex_twin_store_def ex_document_row_def empty_store_def
        ex_third_upload_def ex_upload_def)
  have third: "up_success (fst (uploadDocument ex_third_upload (Map.empty, ex_twin_store))) = True \<and>
      up_duplicate (fst (uploadDocument ex_third_upload (Map.empty, ex_twin_store))) = False \<and>
      up_chunksCreated (fst (uploadDocument ex_third_upload (Map.empty, ex_twin_store))) = Some 1 \<and>
      length (url_rows (dd_documentUrl ex_third_upload)
                (snd (snd (uploadDocument ex_third_upload (Map.empty, ex_twin_store))))) = 3"
    by (simp add: uploadDocument_def ensureCaseExists_def select_case_by_number_def
        select_document_by_url_def single_def insert_document_def url_rows_def
        ex_twin_store_def ex_document_row_def ex_case_row_def empty_store_def
        ex_third_upload_def ex_upload_def ex_case_def
        createChunks_def chunk_loop_def chunk_step_def is_ws_def trim_def new_chunk_def
        CHUNK_SIZE_def upload_batches_small Let_def del: upload_batches.simps)
  show ?thesis
    unfolding clash snd_conv again fst_conv
    using none two third by (simp add: upload_failed_def)
qed

text \<open>
  Claim C2 as amended, for a store whose case numbers are unique (the schema's index).
  A payload whose URL has exactly one row makes \<^verbatim>\<open>uploadDocument\<close> return success with
  \<^verbatim>\<open>duplicate: true\<close> and \<^verbatim>\<open>chunksCreated: 0\<close>, and the documents and the chunks are left as
  they were. Two calls in sequence with the same URL, when the URL has at most one row
  before and (if it has none) the case holds no document of the first payload's name:
  both succeed, the first reports a duplicate exactly when the URL had a row, the second
  reports a duplicate with no chunk created and inserts nothing, and the store then
  holds exactly one row with the URL. When the URL has no row and the case already holds
  a document of that name, the call fails and creates neither a row nor a chunk.
\<close>

theorem uploadDocument_duplicate_by_url:
  assumes "cases_unique st"
  shows "(length (url_rows (dd_documentUrl dd) st) = 1 \<longrightarrow>
            (case uploadDocument dd (cache, st) of
               (r, cache', st') \<Rightarrow>
                 up_success r \<and> up_duplicate r \<and> up_chunksCreated r = Some 0 \<and>
                 documents st' = documents st \<and> document_chunks st' = document_chunks st)) \<and>
         (dd_documentUrl dd2 = dd_documentUrl dd1 \<and>
          length (url_rows (dd_documentUrl dd1) st) \<le> 1 \<and>
          (url_rows (dd_documentUrl dd1) st = [] \<longrightarrow> name_free dd1 (cache, st)) \<longrightarrow>
            (case uploadDocument dd1 (cache, st) of
               (r1, cache1, st1) \<Rightarrow>
                 (case uploadDocument dd2 (cache1, st1) of
                    (r2, cache2, st2) \<Rightarrow>
                      up_success r1 \<and>
                      up_duplicate r1 = (url_rows (dd_documentUrl dd1) st \<noteq> []) \<and>
                      up_success r2 \<and> up_duplicate r2 \<and> up_chunksCreated r2 = Some 0 \<and>
                      documents st2 = documents st1 \<and>
                      document_chunks st2 = document_chunks st1 \<and>
                      length (url_rows (dd_documentUrl dd1) st2) = 1))) \<and>
         (url_rows (dd_documentUrl dd1) st = [] \<and> \<not> name_free dd1 (cache, st) \<longrightarrow>
            (case uploadDocument dd1 (cache, st) of
               (r1, cache1, st1) \<Rightarrow>
                 \<not> up_success r1 \<and> \<not> up_duplicate r1 \<and>
                 documents st1 = documents st \<and> document_chunks st1 = document_chunks st))"
proof (intro conjI impI)
  assume "length (url_rows (dd_documentUrl dd) st) = 1"
  then obtain d where "url_rows (dd_documentUrl dd) st = [d]"
    by (cases "url_rows (dd_documentUrl dd) st") auto
  from uploadDocument_existing[OF assms this, of cache]
  show "case uploadDocument dd (cache, st) of
               (r, cache', st') \<Rightarrow>
                 up_success r \<and> up_duplicate r \<and> up_chunksCreated r = Some 0 \<and>
                 documents st' = documents st \<and> document_chunks st' = document_chunks st"
    by auto
next
  assume a: "dd_documentUrl dd2 = dd_documentUrl dd1 \<and>
          length (url_rows (dd_documentUrl dd1) st) \<le> 1 \<and>
          (url_rows (dd_documentUrl dd1) st = [] \<longrightarrow> name_free dd1 (cache, st))"
  let ?u = "dd_documentUrl dd1"
  obtain r1 cache1 st1 where u1: "uploadDocument dd1 (cache, st) = (r1, cache1, st1)"
    by (cases "uploadDocument dd1 (cache, st)") auto
  obtain r2 cache2 st2 where u2: "uploadDocument dd2 (cache1, st1) = (r2, cache2, st2)"
    by (cases "uploadDocument dd2 (cache1, st1)") auto
  have first: "up_success r1 \<and> up_duplicate r1 = (url_rows ?u st \<noteq> []) \<and>
               cases_unique st1 \<and> (\<exists>x. url_rows ?u st1 = [x])"
  proof (cases "url_rows ?u st")
    case Nil
    then have "name_free dd1 (cache, st)" using a by simp
    from uploadDocument_fresh(1)[OF assms Nil this] u1
    obtain doc where "up_success r1" "\<not> up_duplicate r1" "documents st1 = documents st @ [doc]"
      "document_url doc = ?u" "cases_unique st1" by auto
    moreover from this Nil have "url_rows ?u st1 = [doc]" by (simp add: url_rows_def)
    ultimately show ?thesis using Nil by simp
  next
    case (Cons x xs)
    then have one: "url_rows ?u st = [x]" using a by simp
    from uploadDocument_existing[OF assms one, of cache] u1
    have "up_success r1" "up_duplicate r1" "documents st1 = documents st" "cases_unique st1"
      by auto
    moreover from this one have "url_rows ?u st1 = [x]" by (simp add: url_rows_def)
    ultimately show ?thesis using one by simp
  qed
  then obtain x where x: "url_rows (dd_documentUrl dd2) st1 = [x]" using a by auto
  from first have cu: "cases_unique st1" by simp
  from uploadDocument_existing[OF cu x, of cache1] u2
  have second: "up_success r2" "up_duplicate r2" "up_chunksCreated r2 = Some 0"
    "documents st2 = documents st1" "document_chunks st2 = document_chunks st1" by auto
  have "url_rows ?u st2 = [x]" using x a second(4) by (simp add: url_rows_def)
  then have "up_success r1 \<and> up_duplicate r1 = (url_rows ?u st \<noteq> []) \<and>
      up_success r2 \<and> up_duplicate r2 \<and> up_chunksCreated r2 = Some 0 \<and>
      documents st2 = documents st1 \<and> document_chunks st2 = document_chunks st1 \<and>
      length (url_rows ?u st2) = 1"
    using first second by simp
  then show "case uploadDocument dd1 (cache, st) of
               (r1, cache1, st1) \<Rightarrow>
                 (case uploadDocument dd2 (cache1, st1) of
                    (r2, cache2, st2) \<Rightarrow>
                      up_success r1 \<and>
                      up_duplicate r1 = (url_rows (dd_documentUrl dd1) st \<noteq> []) \<and>
                      up_success r2 \<and> up_duplicate r2 \<and> up_chunksCreated r2 = Some 0 \<and>
                      documents st2 = documents st1 \<and>
                      document_chunks st2 = document_chunks st1 \<and>
                      length (url_rows (dd_documentUrl dd1) st2) = 1)"
    unfolding u1 u2 prod.case by blast
next
  assume "url_rows (dd_documentUrl dd1) st = [] \<and> \<not> name_free dd1 (cache, st)"
  then have n: "url_rows (dd_documentUrl dd1) st = []" and t: "\<not> name_free dd1 (cache, st)"
    by simp_all
  from uploadDocument_fresh(2)[OF assms n t]
  show "case uploadDocument dd1 (cache, st) of
               (r1, cache1, st1) \<Rightarrow>
                 \<not> up_success r1 \<and> \<not> up_duplicate r1 \<and>
                 documents st1 = documents st \<and> document_chunks st1 = document_chunks st"
    by auto
qed

text \<open>
  Witness for C2: a store that holds one row for the URL, on which the call reports a
  duplicate; the same URL uploaded twice into an empty store, the second time under
  another display name (the first call creates the row and one chunk, the second
  reports a duplicate); and a new URL under a name the case already holds, on which the
  call fails.
\<close>

theorem uploadDocument_duplicate_by_url_witness:
  "cases_unique ex_store \<and>
   length (url_rows (dd_documentUrl ex_upload) ex_store) = 1 \<and>
   (case uploadDocument ex_upload (Map.empty, ex_store) of
      (r, cache', st') \<Rightarrow>
        up_success r \<and> up_duplicate r \<and> up_chunksCreated r = Some 0 \<and> st' = ex_store) \<and>
   cases_unique empty_store \<and>
   dd_documentUrl (ex_upload\<lparr>dd_documentName := ''SMITH DIRECT.PDF''\<rparr>) = dd_documentUrl ex_upload \<and>
   url_rows (dd_documentUrl ex_upload) empty_store = [] \<and>
   name_free ex_upload (Map.empty, empty_store) \<and>
   (case uploadDocument ex_upload (Map.empty, empty_store) of
      (r1, cache1, st1) \<Rightarrow>
        up_success r1 \<and> up_duplicate r1 = False \<and> up_chunksCreated r1 = Some 1 \<and>
        (case uploadDocument (ex_upload\<lparr>dd_documentName := ''SMITH DIRECT.PDF''\<rparr>) (cache1, st1) of
           (r2, cache2, st2) \<Rightarrow>
             up_success r2 \<and> up_duplicate r2 \<and> up_chunksCreated r2 = Some 0 \<and>
             length (documents st2) = 1 \<and> length (document_chunks st2) = 1)) \<and>
   url_rows (dd_documentUrl ex_clash_upload) ex_store = [] \<and>
   name_free ex_clash_upload (Map.empty, ex_store) = False \<and>
   up_success (fst (uploadDocument ex_clash_upload (Map.empty, ex_store))) = False"
proof -
  have held: "cases_unique ex_store \<and>
      length (url_rows (dd_documentUrl ex_upload) ex_store) = 1 \<and>
      (case uploadDocument ex_upload (Map.empty, ex_store) of
         (r, cache', st') \<Rightarrow>
           up_success r \<and> up_duplicate r \<and> up_chunksCreated r = Some 0 \<and> st' = ex_store)"
    using uploadDocument_duplicate_by_url
            [of ex_store ex_upload Map.empty ex_upload ex_upload]
    by (simp add: uploadDocument_def ensureCaseExists_def select_case_by_number_def
        select_document_by_url_def single_def url_rows_def ex_store_def ex_document_row_def
        ex_case_row_def empty_store_def ex_upload_def ex_case_def cases_unique_def Let_def)
  have twice: "cases_unique empty_store \<and>
      dd_documentUrl (ex_upload\<lparr>dd_documentName := ''SMITH DIRECT.PDF''\<rparr>) = dd_documentUrl ex_upload \<and>
      url_rows (dd_documentUrl ex_upload) empty_store = [] \<and>
      name_free ex_upload (Map.empty, empty_store) \<and>
      (case uploadDocument ex_upload (Map.empty, empty_store) of
         (r1, cache1, st1) \<Rightarrow>
           up_success r1 \<and> up_duplicate r1 = False \<and> up_chunksCreated r1 = Some 1 \<and>
           (case uploadDocument (ex_upload\<lparr>dd_documentName := ''SMITH DIRECT.PDF''\<rparr>) (cache1, st1) of
              (r2, cache2, st2) \<Rightarrow>
                up_success r2 \<and> up_duplicate r2 \<and> up_chunksCreated r2 = Some 0 \<and>
                length (documents st2) = 1 \<and> length (document_chunks st2) = 1))"
    using uploadDocument_duplicate_by_url
            [of empty_store ex_upload Map.empty
                "ex_upload\<lparr>dd_documentName := ''SMITH DIRECT.PDF''\<rparr>" ex_upload]
    by (simp add: uploadDocument_def ensureCaseExists_def select_case_by_number_def
        select_document_by_url_def single_def insert_case_def insert_document_def
        url_rows_def name_free_def
        empty_store_def ex_upload_def ex_case_def cases_unique_def
        createChunks_def chunk_loop_def chunk_step_def is_ws_def trim_def new_chunk_def
        CHUNK_SIZE_def upload_batches_small Let_def del: upload_batches.simps)
  have clash: "url_rows (dd_documentUrl ex_clash_upload) ex_store = [] \<and>
      name_free ex_clash_upload (Map.empty, ex_store) = False \<and>
      up_success (fst (uploadDocument ex_clash_upload (Map.empty, ex_store))) = False"
    using uploadDocument_duplicate_by_url
            [of ex_store ex_upload Map.empty ex_upload ex_clash_upload]
    by (simp add: uploadDocument_def ensureCaseExists_def select_case_by_number_def
        select_document_by_url_def single_def insert_document_def url_rows_def name_free_def
        ex_store_def ex_document_row_def ex_case_row_def empty_store_def ex_clash_upload_def
        ex_upload_def ex_case_def cases_unique_def upload_failed_def)
  from held twice clash show ?thesis
    by - (elim conjE, intro conjI, assumption+)
qed

end
